theory Spec2Isabelle
  imports Main "HOL-Library.Multiset"
begin

section \<open>Signature-based technology detection (Wappalyzer patterns)\<close>

text \<open>
  A shallow embedding of the detection engine: \<open>parsePattern\<close>, \<open>extractVersion\<close>,
  \<open>testPatterns\<close>, \<open>addDetection\<close>, the per-technology signal evaluation, the
  \<open>implies\<close> closure, the filter/sort/CMS selection and the two \<open>try\<close>/\<open>catch\<close>
  layers of \<open>detectTechnologies\<close> and \<open>collectPageData\<close>.

  Modelling conventions.
  \<^item> JavaScript strings are \<open>string\<close>; \<open>null\<close>/\<open>undefined\<close> is \<open>None\<close>.
  \<^item> JavaScript numbers are \<open>jsnum\<close>: an integer or \<open>NaN\<close> (what \<open>parseInt\<close> gives
    on a string without digits). Rounding and infinities of doubles are not modelled.
  \<^item> Plain objects used as dictionaries are finite maps of their own properties, read
    through \<open>getValue\<close>, \<open>globalString\<close> and \<open>lookupTech\<close>, which also find the members
    every plain object inherits from \<open>Object.prototype\<close>; the fingerprint database is
    the list of its entries in \<open>Object.entries\<close> order.
  \<^item> An exception is a value of \<open>thrown\<close>; what may throw returns \<open>thrown + 'a\<close>.
  \<^item> The result \<open>Map\<close> is an association list in insertion order.
  \<^item> \<open>RegExp\<close> is a parameter: a constructor that may fail and gives a matcher.
\<close>

subsection \<open>Numbers\<close>

datatype jsnum = Fin int | NaN

fun jadd :: "jsnum \<Rightarrow> jsnum \<Rightarrow> jsnum" where
  "jadd (Fin a) (Fin b) = Fin (a + b)"
| "jadd _ _ = NaN"

fun jsub :: "jsnum \<Rightarrow> jsnum \<Rightarrow> jsnum" where
  "jsub (Fin a) (Fin b) = Fin (a - b)"
| "jsub _ _ = NaN"

text \<open>\<open>Math.max\<close> and \<open>Math.min\<close>: \<open>NaN\<close> as soon as one argument is \<open>NaN\<close>.\<close>

fun jmax :: "jsnum \<Rightarrow> jsnum \<Rightarrow> jsnum" where
  "jmax (Fin a) (Fin b) = Fin (max a b)"
| "jmax _ _ = NaN"

fun jmin :: "jsnum \<Rightarrow> jsnum \<Rightarrow> jsnum" where
  "jmin (Fin a) (Fin b) = Fin (min a b)"
| "jmin _ _ = NaN"

text \<open>The comparisons \<open>x > y\<close> and \<open>x >= y\<close>: false as soon as one side is \<open>NaN\<close>.\<close>

fun jgt :: "jsnum \<Rightarrow> jsnum \<Rightarrow> bool" where
  "jgt (Fin a) (Fin b) = (a > b)"
| "jgt _ _ = False"

fun jge :: "jsnum \<Rightarrow> jsnum \<Rightarrow> bool" where
  "jge (Fin a) (Fin b) = (a \<ge> b)"
| "jge _ _ = False"

subsection \<open>Strings\<close>

definition bslash :: char where
  "bslash = CHR 0x5C"

text \<open>The two-character token \<open>\;\<close> that separates a pattern from its tags.\<close>

definition sep :: string where
  "sep = [bslash, CHR '';'']"

fun startsWith :: "string \<Rightarrow> string \<Rightarrow> bool" where
  "startsWith s [] = True"
| "startsWith [] (p # ps) = False"
| "startsWith (c # cs) (p # ps) = (c = p \<and> startsWith cs ps)"

fun includesStr :: "string \<Rightarrow> string \<Rightarrow> bool" where
  "includesStr [] sub = (sub = [])"
| "includesStr (c # cs) sub = (startsWith (c # cs) sub \<or> includesStr cs sub)"

text \<open>\<open>s.split('\\;')\<close>; the first argument collects the current part, reversed.\<close>

fun splitSep :: "string \<Rightarrow> string \<Rightarrow> string list" where
  "splitSep cur (c # d # cs) =
     (if c = bslash \<and> d = CHR '';'' then rev cur # splitSep [] cs
      else splitSep (c # cur) (d # cs))"
| "splitSep cur [c] = [rev (c # cur)]"
| "splitSep cur [] = [rev cur]"

definition splitStr :: "string \<Rightarrow> string list" where
  "splitStr s = splitSep [] s"

text \<open>\<open>toLowerCase\<close> on the ASCII letters; other characters are left as they are.\<close>

definition lowerChar :: "char \<Rightarrow> char" where
  "lowerChar c =
     (case map_of (zip ''ABCDEFGHIJKLMNOPQRSTUVWXYZ'' ''abcdefghijklmnopqrstuvwxyz'') c of
        None \<Rightarrow> c
      | Some l \<Rightarrow> l)"

definition toLowerCase :: "string \<Rightarrow> string" where
  "toLowerCase s = map lowerChar s"

text \<open>
  \<open>parseInt(s, 10)\<close>: leading (ASCII) white space is skipped, then an optional sign,
  then the longest run of decimal digits; without a digit the result is \<open>NaN\<close>.
\<close>

definition isSpace :: "char \<Rightarrow> bool" where
  "isSpace c = ((of_char c :: nat) \<in> {9, 10, 11, 12, 13, 32})"

definition isDigit :: "char \<Rightarrow> bool" where
  "isDigit c = (let n = (of_char c :: nat) in 48 \<le> n \<and> n \<le> 57)"

definition digitsVal :: "string \<Rightarrow> int" where
  "digitsVal ds = foldl (\<lambda>a c. 10 * a + (int (of_char c) - 48)) 0 ds"

definition parseDigits :: "string \<Rightarrow> int option" where
  "parseDigits u =
     (let ds = takeWhile isDigit u in if ds = [] then None else Some (digitsVal ds))"

definition parseInt :: "string \<Rightarrow> jsnum" where
  "parseInt s =
     (case dropWhile isSpace s of
        [] \<Rightarrow> NaN
      | c # r \<Rightarrow>
          if c = CHR ''-'' then (case parseDigits r of None \<Rightarrow> NaN | Some n \<Rightarrow> Fin (- n))
          else if c = CHR ''+'' then (case parseDigits r of None \<Rightarrow> NaN | Some n \<Rightarrow> Fin n)
          else (case parseDigits (c # r) of None \<Rightarrow> NaN | Some n \<Rightarrow> Fin n))"

text \<open>JavaScript truthiness of a possibly absent string: absent and empty are falsy.\<close>

fun truthy :: "string option \<Rightarrow> bool" where
  "truthy None = False"
| "truthy (Some s) = (s \<noteq> [])"

subsection \<open>Patterns\<close>

text \<open>
  \<open>new RegExp(body, 'i')\<close> either throws (\<open>None\<close>) or gives a regular expression; a
  regular expression applied to a value by \<open>value.match\<close> gives \<open>null\<close> or the match
  array (index 0 the whole match, then the capture groups, an unset group being
  \<open>undefined\<close>).
\<close>

type_synonym regexp = "string \<Rightarrow> string option list option"
type_synonym regexp_ctor = "string \<Rightarrow> regexp option"

text \<open>A pattern field of the database: one string or an array of strings.\<close>

datatype patterns = PStr string | PArr "string list"

fun truthyPatterns :: "patterns \<Rightarrow> bool" where
  "truthyPatterns (PStr s) = (s \<noteq> [])"
| "truthyPatterns (PArr l) = True"

fun asArray :: "patterns \<Rightarrow> string list" where
  "asArray (PStr s) = [s]"
| "asArray (PArr l) = l"

record parsed =
  regex :: regexp
  versionGroup :: "string option"
  p_confidence :: jsnum

text \<open>The loop of \<open>parsePattern\<close> over \<open>parts.slice(1)\<close>.\<close>

fun parseTags :: "string list \<Rightarrow> string option \<times> jsnum \<Rightarrow> string option \<times> jsnum" where
  "parseTags [] acc = acc"
| "parseTags (part # rest) (vg, conf) =
     (if startsWith part ''version:''
      then parseTags rest (Some (drop (length ''version:'') part), conf)
      else if startsWith part ''confidence:''
      then parseTags rest (vg, parseInt (drop (length ''confidence:'') part))
      else parseTags rest (vg, conf))"

definition parsePattern :: "regexp_ctor \<Rightarrow> string \<Rightarrow> parsed option" where
  "parsePattern rx pattern =
     (if pattern = [] then None
      else
        let (patternStr, vg, conf) =
              (if includesStr pattern sep
               then (let parts = splitStr pattern;
                         (vg, conf) = parseTags (tl parts) (None, Fin 100)
                     in (hd parts, vg, conf))
               else (pattern, None, Fin 100))
        in case rx patternStr of
             None \<Rightarrow> None
           | Some r \<Rightarrow> Some \<lparr>regex = r, versionGroup = vg, p_confidence = conf\<rparr>)"

text \<open>\<open>match[groupNum] || null\<close>: out of range, unset and empty groups all give \<open>null\<close>.\<close>

definition matchAt :: "string option list \<Rightarrow> jsnum \<Rightarrow> string option" where
  "matchAt m g =
     (case g of
        NaN \<Rightarrow> None
      | Fin n \<Rightarrow>
          if 0 \<le> n \<and> nat n < length m
          then (if truthy (m ! nat n) then m ! nat n else None)
          else None)"

definition extractVersion :: "string option list \<Rightarrow> string option \<Rightarrow> string option" where
  "extractVersion m vg =
     (case vg of
        None \<Rightarrow> None
      | Some g \<Rightarrow>
          if g = [] then None
          else if startsWith g [bslash] then matchAt m (parseInt (drop 1 g))
          else None)"

record test_result =
  r_version :: "string option"
  r_confidence :: jsnum

text \<open>
  What a \<open>throw\<close> can carry: \<open>null\<close> or \<open>undefined\<close>, or an object with a
  \<open>message\<close>.
\<close>

datatype thrown = ThrownNullish | ThrownError string

text \<open>
  The value handed to \<open>testPatterns\<close>: a string, or an object that is not a string (a
  member inherited from \<open>Object.prototype\<close>, see \<open>getValue\<close>). Such an object is truthy
  and has no \<open>match\<close> method, so \<open>value.match(parsed.regex)\<close> throws a \<open>TypeError\<close>.
\<close>

datatype jsvalue = VStr string | VObj

fun truthyValue :: "jsvalue \<Rightarrow> bool" where
  "truthyValue (VStr s) = (s \<noteq> [])"
| "truthyValue VObj = True"

definition matchError :: thrown where
  "matchError = ThrownError ''value.match is not a function''"

fun testList :: "regexp_ctor \<Rightarrow> string list \<Rightarrow> jsvalue \<Rightarrow> thrown + test_result option" where
  "testList rx [] v = Inr None"
| "testList rx (pattern # rest) v =
     (case parsePattern rx pattern of
        None \<Rightarrow> testList rx rest v
      | Some p \<Rightarrow>
          (case v of
             VObj \<Rightarrow> Inl matchError
           | VStr s \<Rightarrow>
               (case regex p s of
                  None \<Rightarrow> testList rx rest v
                | Some m \<Rightarrow>
                    Inr (Some \<lparr>r_version = extractVersion m (versionGroup p),
                               r_confidence = p_confidence p\<rparr>))))"

definition testPatterns ::
  "regexp_ctor \<Rightarrow> patterns \<Rightarrow> jsvalue \<Rightarrow> thrown + test_result option" where
  "testPatterns rx pats v =
     (if \<not> truthyPatterns pats \<or> \<not> truthyValue v then Inr None
      else testList rx (asArray pats) v)"

subsection \<open>Data model\<close>

text \<open>The checks attached to one DOM selector; \<open>c_otherKeys\<close> counts any further keys.\<close>

record domChecks =
  c_exists :: "string option"
  c_text :: "patterns option"
  c_attributes :: "(string \<times> patterns) list option"
  c_otherKeys :: nat

datatype domSpec = DomStr string | DomObj "(string \<times> domChecks) list"

text \<open>One entry of the fingerprint database; every field is optional.\<close>

record technology =
  t_scriptSrc :: "patterns option"
  t_xhr :: "patterns option"
  t_meta :: "(string \<times> patterns) list option"
  t_js :: "(string \<times> patterns) list option"
  t_html :: "patterns option"
  t_headers :: "(string \<times> patterns) list option"
  t_cookies :: "(string \<times> patterns) list option"
  t_dom :: "domSpec option"
  t_implies :: "patterns option"
  t_cats :: "int list option"
  t_website :: "string option"
  t_icon :: "string option"

type_synonym technologies = "(string \<times> technology) list"

text \<open>\<open>categories[catId]?.name\<close>: the name of a category, when it has one.\<close>

type_synonym categories = "int \<Rightarrow> string option"

text \<open>
  A value of \<open>jsGlobals\<close>: a string, a number (carried with what \<open>String\<close> prints for
  it) or a boolean.
\<close>

datatype jsval = JString string | JNumber string | JBool bool

fun toString :: "jsval \<Rightarrow> string" where
  "toString (JString s) = s"
| "toString (JNumber s) = s"
| "toString (JBool b) = (if b then ''true'' else ''false'')"

record cookie =
  ck_name :: string
  ck_value :: string

record domResult =
  dr_exists :: bool
  dr_text :: string
  dr_attributes :: "string \<rightharpoonup> string"

record pageData =
  pd_meta :: "string \<rightharpoonup> string"
  pd_jsGlobals :: "string \<rightharpoonup> jsval"
  pd_html :: string
  pd_headers :: "string \<rightharpoonup> string"
  pd_cookies :: "cookie list"
  pd_domResults :: "string \<rightharpoonup> domResult"

record category =
  cat_id :: int
  cat_name :: string

record detection =
  d_name :: string
  d_confidence :: jsnum
  d_version :: "string option"
  d_categories :: "category list"
  d_website :: "string option"
  d_icon :: "string option"

text \<open>The \<open>Map\<close> named \<open>detected\<close>: entries in insertion order.\<close>

type_synonym detected = "(string \<times> detection) list"

fun mapSet :: "string \<Rightarrow> detection \<Rightarrow> detected \<Rightarrow> detected" where
  "mapSet k v [] = [(k, v)]"
| "mapSet k v (p # ps) = (if fst p = k then (k, v) # ps else p # mapSet k v ps)"

definition mapHas :: "detected \<Rightarrow> string \<Rightarrow> bool" where
  "mapHas det k = (map_of det k \<noteq> None)"

subsection \<open>Reading a plain object\<close>

text \<open>
  \<open>pageData.meta\<close>, \<open>pageData.headers\<close>, \<open>pageData.jsGlobals\<close>, the \<open>attributes\<close> of a
  DOM result and \<open>technologies\<close> are plain objects, and \<open>obj[key]\<close> on a plain object
  also finds what the object inherits from \<open>Object.prototype\<close>: these twelve members,
  unless the object has a property of its own under that name.
\<close>

definition protoMembers :: "string list" where
  "protoMembers =
     [''constructor'', ''__defineGetter__'', ''__defineSetter__'', ''hasOwnProperty'',
      ''__lookupGetter__'', ''__lookupSetter__'', ''isPrototypeOf'', ''propertyIsEnumerable'',
      ''toString'', ''valueOf'', ''__proto__'', ''toLocaleString'']"

text \<open>\<open>obj[key]\<close> on an object whose own values are strings.\<close>

definition getValue :: "(string \<rightharpoonup> string) \<Rightarrow> string \<Rightarrow> jsvalue option" where
  "getValue obj k =
     (case obj k of
        Some s \<Rightarrow> Some (VStr s)
      | None \<Rightarrow> if k \<in> set protoMembers then Some VObj else None)"

text \<open>
  \<open>String(x)\<close> of an inherited member \<open>x\<close>: the members are functions, but for
  \<open>__proto__\<close>, which is \<open>Object.prototype\<close> itself.
\<close>

definition inheritedString :: "string \<Rightarrow> string" where
  "inheritedString k =
     (if k = ''__proto__'' then ''[object Object]''
      else if k = ''constructor'' then ''function Object() { [native code] }''
      else ''function '' @ k @ ''() { [native code] }'')"

text \<open>
  \<open>pageData.jsGlobals[jsVar]\<close>, as what \<open>String\<close> prints for it; \<open>None\<close> when it is
  \<open>undefined\<close>.
\<close>

definition globalString :: "pageData \<Rightarrow> string \<Rightarrow> string option" where
  "globalString pd k =
     (case pd_jsGlobals pd k of
        Some jsValue \<Rightarrow> Some (toString jsValue)
      | None \<Rightarrow> if k \<in> set protoMembers then Some (inheritedString k) else None)"

text \<open>
  \<open>technologies[name]\<close>. An inherited member is truthy and has none of the fields of a
  rule: \<open>implies\<close>, \<open>cats\<close>, \<open>website\<close> and \<open>icon\<close> are all \<open>undefined\<close> on it.
\<close>

definition inheritedTech :: technology where
  "inheritedTech =
     \<lparr>t_scriptSrc = None, t_xhr = None, t_meta = None, t_js = None, t_html = None,
      t_headers = None, t_cookies = None, t_dom = None, t_implies = None, t_cats = None,
      t_website = None, t_icon = None\<rparr>"

definition lookupTech :: "technologies \<Rightarrow> string \<Rightarrow> technology option" where
  "lookupTech techs name =
     (case map_of techs name of
        Some tech \<Rightarrow> Some tech
      | None \<Rightarrow> if name \<in> set protoMembers then Some inheritedTech else None)"

subsection \<open>addDetection\<close>

text \<open>\<open>x || null\<close> on a possibly absent string.\<close>

definition orNull :: "string option \<Rightarrow> string option" where
  "orNull x = (if truthy x then x else None)"

definition categoryName :: "categories \<Rightarrow> int \<Rightarrow> string" where
  "categoryName cs c =
     (case cs c of None \<Rightarrow> ''Unknown'' | Some n \<Rightarrow> if n = [] then ''Unknown'' else n)"

definition addDetection ::
  "categories \<Rightarrow> detected \<Rightarrow> string \<Rightarrow> technology \<Rightarrow> jsnum \<Rightarrow> string option \<Rightarrow> detected" where
  "addDetection cs det techName tech conf ver =
     (let existing = map_of det techName;
          newConfidence = (case existing of Some e \<Rightarrow> jmax (d_confidence e) conf | None \<Rightarrow> conf);
          newVersion =
            (if truthy ver then ver
             else (case existing of Some e \<Rightarrow> orNull (d_version e) | None \<Rightarrow> None))
      in mapSet techName
           \<lparr>d_name = techName,
            d_confidence = jmin newConfidence (Fin 100),
            d_version = newVersion,
            d_categories =
              map (\<lambda>c. \<lparr>cat_id = c, cat_name = categoryName cs c\<rparr>)
                (case t_cats tech of Some l \<Rightarrow> l | None \<Rightarrow> []),
            d_website = orNull (t_website tech),
            d_icon = orNull (t_icon tech)\<rparr>
           det)"

subsection \<open>Evaluating one technology\<close>

text \<open>The pair \<open>(totalConfidence, detectedVersion)\<close> of the loop body.\<close>

type_synonym acc = "jsnum \<times> string option"

text \<open>
  \<open>if (result?.matched) { totalConfidence += result.confidence;
  if (result.version) detectedVersion = result.version; }\<close>
\<close>

fun applyResult :: "acc \<Rightarrow> test_result option \<Rightarrow> acc" where
  "applyResult st None = st"
| "applyResult (tot, ver) (Some r) =
     (jadd tot (r_confidence r), if truthy (r_version r) then r_version r else ver)"

text \<open>The same after a call of \<open>testPatterns\<close>, which may have thrown.\<close>

definition applyTest :: "acc \<Rightarrow> thrown + test_result option \<Rightarrow> thrown + acc" where
  "applyTest st t = (case t of Inl err \<Rightarrow> Inl err | Inr r \<Rightarrow> Inr (applyResult st r))"

text \<open>\<open>totalConfidence += 100\<close>\<close>

fun addPresence :: "acc \<Rightarrow> acc" where
  "addPresence (tot, ver) = (jadd tot (Fin 100), ver)"

text \<open>A \<open>for\<close> loop whose body may throw: the first exception ends it.\<close>

fun foldE :: "('x \<Rightarrow> 's \<Rightarrow> thrown + 's) \<Rightarrow> 'x list \<Rightarrow> 's \<Rightarrow> thrown + 's" where
  "foldE f [] s = Inr s"
| "foldE f (x # xs) s = (case f x s of Inl err \<Rightarrow> Inl err | Inr s' \<Rightarrow> foldE f xs s')"

text \<open>One block after another: an exception of the first skips the second.\<close>

definition andThen :: "thrown + 's \<Rightarrow> ('s \<Rightarrow> thrown + 't) \<Rightarrow> thrown + 't" where
  "andThen r f = (case r of Inl err \<Rightarrow> Inl err | Inr s \<Rightarrow> f s)"

definition checkUrls ::
  "regexp_ctor \<Rightarrow> patterns option \<Rightarrow> string list \<Rightarrow> acc \<Rightarrow> thrown + acc" where
  "checkUrls rx field urls st =
     (case field of
        None \<Rightarrow> Inr st
      | Some p \<Rightarrow>
          if truthyPatterns p \<and> urls \<noteq> []
          then foldE (\<lambda>url s. applyTest s (testPatterns rx (PArr (asArray p)) (VStr url))) urls st
          else Inr st)"

definition metaStep ::
  "regexp_ctor \<Rightarrow> pageData \<Rightarrow> string \<times> patterns \<Rightarrow> acc \<Rightarrow> thrown + acc" where
  "metaStep rx pd e st =
     (case getValue (pd_meta pd) (toLowerCase (fst e)) of
        None \<Rightarrow> Inr st
      | Some metaValue \<Rightarrow>
          if \<not> truthyValue metaValue then Inr st
          else (case testPatterns rx (snd e) metaValue of
                  Inl err \<Rightarrow> Inl err
                | Inr (Some r) \<Rightarrow> Inr (applyResult st (Some r))
                | Inr None \<Rightarrow> Inr (if snd e = PStr [] then addPresence st else st)))"

definition checkMeta :: "regexp_ctor \<Rightarrow> technology \<Rightarrow> pageData \<Rightarrow> acc \<Rightarrow> thrown + acc" where
  "checkMeta rx tech pd st =
     (case t_meta tech of None \<Rightarrow> Inr st | Some es \<Rightarrow> foldE (metaStep rx pd) es st)"

definition jsStep ::
  "regexp_ctor \<Rightarrow> pageData \<Rightarrow> string \<times> patterns \<Rightarrow> acc \<Rightarrow> thrown + acc" where
  "jsStep rx pd e st =
     (case globalString pd (fst e) of
        None \<Rightarrow> Inr st
      | Some jsString \<Rightarrow>
          if snd e = PStr [] then Inr (addPresence st)
          else applyTest st (testPatterns rx (snd e) (VStr jsString)))"

definition checkJs :: "regexp_ctor \<Rightarrow> technology \<Rightarrow> pageData \<Rightarrow> acc \<Rightarrow> thrown + acc" where
  "checkJs rx tech pd st =
     (case t_js tech of None \<Rightarrow> Inr st | Some es \<Rightarrow> foldE (jsStep rx pd) es st)"

definition checkHtml :: "regexp_ctor \<Rightarrow> technology \<Rightarrow> pageData \<Rightarrow> acc \<Rightarrow> thrown + acc" where
  "checkHtml rx tech pd st =
     (case t_html tech of
        None \<Rightarrow> Inr st
      | Some p \<Rightarrow>
          if truthyPatterns p \<and> pd_html pd \<noteq> []
          then applyTest st (testPatterns rx (PArr (asArray p)) (VStr (pd_html pd)))
          else Inr st)"

definition headerStep ::
  "regexp_ctor \<Rightarrow> pageData \<Rightarrow> string \<times> patterns \<Rightarrow> acc \<Rightarrow> thrown + acc" where
  "headerStep rx pd e st =
     (case getValue (pd_headers pd) (toLowerCase (fst e)) of
        None \<Rightarrow> Inr st
      | Some headerValue \<Rightarrow>
          if \<not> truthyValue headerValue then Inr st
          else if snd e = PStr [] then Inr (addPresence st)
          else applyTest st (testPatterns rx (snd e) headerValue))"

definition checkHeaders :: "regexp_ctor \<Rightarrow> technology \<Rightarrow> pageData \<Rightarrow> acc \<Rightarrow> thrown + acc" where
  "checkHeaders rx tech pd st =
     (case t_headers tech of None \<Rightarrow> Inr st | Some es \<Rightarrow> foldE (headerStep rx pd) es st)"

text \<open>\<open>pageData.cookies\<close> is an array, searched with \<open>find\<close>: nothing is inherited here.\<close>

definition cookieStep ::
  "regexp_ctor \<Rightarrow> pageData \<Rightarrow> string \<times> patterns \<Rightarrow> acc \<Rightarrow> thrown + acc" where
  "cookieStep rx pd e st =
     (case find (\<lambda>c. toLowerCase (ck_name c) = toLowerCase (fst e)) (pd_cookies pd) of
        None \<Rightarrow> Inr st
      | Some c \<Rightarrow>
          if snd e = PStr [] then Inr (addPresence st)
          else applyTest st (testPatterns rx (snd e) (VStr (ck_value c))))"

definition checkCookies :: "regexp_ctor \<Rightarrow> technology \<Rightarrow> pageData \<Rightarrow> acc \<Rightarrow> thrown + acc" where
  "checkCookies rx tech pd st =
     (case t_cookies tech of None \<Rightarrow> Inr st | Some es \<Rightarrow> foldE (cookieStep rx pd) es st)"

definition noKeys :: "domChecks \<Rightarrow> bool" where
  "noKeys ch =
     (c_exists ch = None \<and> c_text ch = None \<and> c_attributes ch = None \<and> c_otherKeys ch = 0)"

definition emptyChecks :: domChecks where
  "emptyChecks = \<lparr>c_exists = None, c_text = None, c_attributes = None, c_otherKeys = 0\<rparr>"

definition attrStep ::
  "regexp_ctor \<Rightarrow> domResult \<Rightarrow> string \<times> patterns \<Rightarrow> acc \<Rightarrow> thrown + acc" where
  "attrStep rx dr e st =
     (case getValue (dr_attributes dr) (fst e) of
        None \<Rightarrow> Inr st
      | Some attrValue \<Rightarrow>
          if \<not> truthyValue attrValue then Inr st
          else applyTest st (testPatterns rx (snd e) attrValue))"

definition domText :: "regexp_ctor \<Rightarrow> domResult \<Rightarrow> domChecks \<Rightarrow> acc \<Rightarrow> thrown + acc" where
  "domText rx dr ch st =
     (case c_text ch of
        None \<Rightarrow> Inr st
      | Some p \<Rightarrow>
          if truthyPatterns p \<and> dr_text dr \<noteq> []
          then applyTest st (testPatterns rx p (VStr (dr_text dr)))
          else Inr st)"

definition domAttrs :: "regexp_ctor \<Rightarrow> domResult \<Rightarrow> domChecks \<Rightarrow> acc \<Rightarrow> thrown + acc" where
  "domAttrs rx dr ch st =
     (case c_attributes ch of None \<Rightarrow> Inr st | Some es \<Rightarrow> foldE (attrStep rx dr) es st)"

text \<open>
  \<open>pageData.domResults[selector]\<close> followed by \<open>domResult?.exists\<close>: a member inherited
  under the selector's name has no \<open>exists\<close>, so it is passed over as an absent
  selector is.
\<close>

definition domStep ::
  "regexp_ctor \<Rightarrow> pageData \<Rightarrow> string \<times> domChecks \<Rightarrow> acc \<Rightarrow> thrown + acc" where
  "domStep rx pd e st =
     (case pd_domResults pd (fst e) of
        None \<Rightarrow> Inr st
      | Some dr \<Rightarrow>
          if \<not> dr_exists dr then Inr st
          else if noKeys (snd e) \<or> c_exists (snd e) = Some [] then Inr (addPresence st)
          else andThen (domText rx dr (snd e) st) (domAttrs rx dr (snd e)))"

definition checkDom :: "regexp_ctor \<Rightarrow> technology \<Rightarrow> pageData \<Rightarrow> acc \<Rightarrow> thrown + acc" where
  "checkDom rx tech pd st =
     (case t_dom tech of
        None \<Rightarrow> Inr st
      | Some (DomStr s) \<Rightarrow> if s = [] then Inr st else foldE (domStep rx pd) [(s, emptyChecks)] st
      | Some (DomObj es) \<Rightarrow> foldE (domStep rx pd) es st)"

text \<open>The body of the loop over the database, up to the test \<open>totalConfidence > 0\<close>.\<close>

definition evalTech ::
  "regexp_ctor \<Rightarrow> technology \<Rightarrow> pageData \<Rightarrow> string list \<Rightarrow> string list \<Rightarrow> thrown + acc" where
  "evalTech rx tech pd scriptUrls xhrUrls =
     andThen (andThen (andThen (andThen (andThen (andThen (andThen
       (checkUrls rx (t_scriptSrc tech) scriptUrls (Fin 0, None))
       (checkUrls rx (t_xhr tech) xhrUrls))
       (checkMeta rx tech pd))
       (checkJs rx tech pd))
       (checkHtml rx tech pd))
       (checkHeaders rx tech pd))
       (checkCookies rx tech pd))
       (checkDom rx tech pd)"

definition detectStep ::
  "regexp_ctor \<Rightarrow> categories \<Rightarrow> pageData \<Rightarrow> string list \<Rightarrow> string list \<Rightarrow>
   string \<times> technology \<Rightarrow> detected \<Rightarrow> thrown + detected" where
  "detectStep rx cs pd scriptUrls xhrUrls e det =
     (case evalTech rx (snd e) pd scriptUrls xhrUrls of
        Inl err \<Rightarrow> Inl err
      | Inr (totalConfidence, detectedVersion) \<Rightarrow>
          Inr (if jgt totalConfidence (Fin 0)
               then addDetection cs det (fst e) (snd e) totalConfidence detectedVersion
               else det))"

definition detectAll ::
  "regexp_ctor \<Rightarrow> technologies \<Rightarrow> categories \<Rightarrow> pageData \<Rightarrow> string list \<Rightarrow> string list \<Rightarrow>
   thrown + detected" where
  "detectAll rx techs cs pd scriptUrls xhrUrls =
     foldE (detectStep rx cs pd scriptUrls xhrUrls) techs []"

subsection \<open>The closure under \<open>implies\<close>\<close>

fun impliedTags :: "string list \<Rightarrow> jsnum \<Rightarrow> jsnum" where
  "impliedTags [] conf = conf"
| "impliedTags (part # rest) conf =
     (if startsWith part ''confidence:''
      then impliedTags rest (parseInt (drop (length ''confidence:'') part))
      else impliedTags rest conf)"

definition parseImplied :: "string \<Rightarrow> string \<times> jsnum" where
  "parseImplied implied =
     (if includesStr implied sep
      then (let parts = splitStr implied in (hd parts, impliedTags (tl parts) (Fin 100)))
      else (implied, Fin 100))"

text \<open>
  \<open>if (!detected.has(impliedName) && technologies[impliedName])\<close> and its body;
  \<open>technologies[impliedName]\<close> is \<open>lookupTech\<close>, which also finds inherited members.
\<close>

definition impliedStep ::
  "categories \<Rightarrow> technologies \<Rightarrow> string \<Rightarrow> detected \<times> bool \<Rightarrow> detected \<times> bool" where
  "impliedStep cs techs implied st =
     (let (impliedName, impliedConfidence) = parseImplied implied
      in case lookupTech techs impliedName of
           None \<Rightarrow> st
         | Some tech \<Rightarrow>
             if \<not> mapHas (fst st) impliedName
             then (addDetection cs (fst st) impliedName tech impliedConfidence None, True)
             else st)"

text \<open>\<open>const tech = technologies[techName]; if (tech?.implies) { ... }\<close>\<close>

definition visit ::
  "categories \<Rightarrow> technologies \<Rightarrow> string \<Rightarrow> detected \<times> bool \<Rightarrow> detected \<times> bool" where
  "visit cs techs techName st =
     (case lookupTech techs techName of
        None \<Rightarrow> st
      | Some tech \<Rightarrow>
          (case t_implies tech of
             None \<Rightarrow> st
           | Some imp \<Rightarrow>
               if truthyPatterns imp then fold (impliedStep cs techs) (asArray imp) st else st))"

text \<open>The names that a rule implies, each without its tags.\<close>

definition impliedNames :: "technology \<Rightarrow> string list" where
  "impliedNames tech =
     (case t_implies tech of
        None \<Rightarrow> []
      | Some imp \<Rightarrow>
          if truthyPatterns imp then map (\<lambda>i. fst (parseImplied i)) (asArray imp) else [])"

text \<open>
  The names the closure can add are those \<open>technologies[name]\<close> finds, and \<open>missing\<close>
  counts the ones the result map does not hold yet. The two loops below terminate
  because every step either leaves the state as it is or adds one of these names, which
  lowers \<open>missing\<close>. The facts are stated for any finite set \<open>K\<close> of names that holds
  whatever the rules can add (\<open>allWithin\<close>), since the bound on the passes needs them for
  the names of the database alone.
\<close>

definition addable :: "technologies \<Rightarrow> string set" where
  "addable techs = fst ` set techs \<union> set protoMembers"

definition missing :: "technologies \<Rightarrow> detected \<Rightarrow> nat" where
  "missing techs det = card (addable techs - fst ` set det)"

definition allWithin :: "technologies \<Rightarrow> string set \<Rightarrow> bool" where
  "allWithin techs K =
     (\<forall>n tech. lookupTech techs n = Some tech \<longrightarrow>
        (\<forall>m\<in>set (impliedNames tech). lookupTech techs m \<noteq> None \<longrightarrow> m \<in> K))"

lemma lookupTech_addable: "lookupTech techs n \<noteq> None \<longleftrightarrow> n \<in> addable techs"
proof (cases "map_of techs n")
  case None
  then have "n \<notin> fst ` set techs" by (simp add: map_of_eq_None_iff)
  with None show ?thesis by (simp add: lookupTech_def addable_def)
next
  case (Some tech)
  then have "(n, tech) \<in> set techs" by (rule map_of_SomeD)
  then have "n \<in> fst ` set techs" by force
  with Some show ?thesis by (simp add: lookupTech_def addable_def)
qed

lemma allWithin_addable: "allWithin techs (addable techs)"
  unfolding allWithin_def using lookupTech_addable by blast

lemma finite_addable: "finite (addable techs)"
  by (simp add: addable_def)

lemma keys_mapSet: "fst ` set (mapSet k v det) = insert k (fst ` set det)"
  by (induction det) auto

lemma mapHas_iff: "mapHas det k \<longleftrightarrow> k \<in> fst ` set det"
  by (simp add: mapHas_def map_of_eq_None_iff)

lemma keys_addDetection:
  "fst ` set (addDetection cs det k tech conf ver) = insert k (fst ` set det)"
  by (simp add: addDetection_def Let_def keys_mapSet)

lemma card_addDetection:
  assumes "finite K" "k \<in> K" "k \<notin> fst ` set det"
  shows "card (K - fst ` set (addDetection cs det k tech conf ver)) < card (K - fst ` set det)"
proof -
  have "K - insert k (fst ` set det) \<subset> K - fst ` set det"
    using assms by auto
  then have "card (K - insert k (fst ` set det)) < card (K - fst ` set det)"
    using assms(1) by (intro psubset_card_mono) auto
  then show ?thesis by (simp only: keys_addDetection)
qed

lemma impliedStep_cases:
  assumes "finite K"
    and "lookupTech techs (fst (parseImplied implied)) \<noteq> None \<longrightarrow> fst (parseImplied implied) \<in> K"
  shows "impliedStep cs techs implied st = st \<or>
         (card (K - fst ` set (fst (impliedStep cs techs implied st)))
            < card (K - fst ` set (fst st)) \<and>
          snd (impliedStep cs techs implied st))"
proof (cases "parseImplied implied")
  case (Pair n c)
  show ?thesis
  proof (cases "lookupTech techs n")
    case None
    with Pair show ?thesis by (simp add: impliedStep_def)
  next
    case (Some tech)
    with assms(2) Pair have "n \<in> K" by simp
    with Pair Some assms(1) show ?thesis
      by (auto simp: impliedStep_def mapHas_iff intro: card_addDetection)
  qed
qed

lemma fold_impliedStep_cases:
  assumes "finite K"
    and "\<forall>i\<in>set ims. lookupTech techs (fst (parseImplied i)) \<noteq> None \<longrightarrow> fst (parseImplied i) \<in> K"
  shows "fold (impliedStep cs techs) ims st = st \<or>
         (card (K - fst ` set (fst (fold (impliedStep cs techs) ims st)))
            < card (K - fst ` set (fst st)) \<and>
          snd (fold (impliedStep cs techs) ims st))"
  using assms(2)
proof (induction ims arbitrary: st)
  case Nil
  show ?case by simp
next
  case (Cons i ims)
  from Cons.prems have a: "lookupTech techs (fst (parseImplied i)) \<noteq> None \<longrightarrow> fst (parseImplied i) \<in> K"
    and b: "\<forall>i\<in>set ims. lookupTech techs (fst (parseImplied i)) \<noteq> None \<longrightarrow> fst (parseImplied i) \<in> K"
    by simp_all
  from impliedStep_cases [OF assms(1) a, of cs st] Cons.IH [OF b, of "impliedStep cs techs i st"]
  show ?case by (auto intro: less_trans)
qed

lemma visit_cases:
  assumes "finite K" and "allWithin techs K"
  shows "visit cs techs n st = st \<or>
         (card (K - fst ` set (fst (visit cs techs n st))) < card (K - fst ` set (fst st)) \<and>
          snd (visit cs techs n st))"
proof (cases "lookupTech techs n")
  case None
  then show ?thesis by (simp add: visit_def)
next
  case (Some tech)
  show ?thesis
  proof (cases "t_implies tech")
    case None
    with Some show ?thesis by (simp add: visit_def)
  next
    case (Some imp)
    show ?thesis
    proof (cases "truthyPatterns imp")
      case False
      with Some \<open>lookupTech techs n = Some tech\<close> show ?thesis by (simp add: visit_def)
    next
      case True
      with Some have "impliedNames tech = map (\<lambda>i. fst (parseImplied i)) (asArray imp)"
        by (simp add: impliedNames_def)
      with assms(2) \<open>lookupTech techs n = Some tech\<close>
      have "\<forall>i\<in>set (asArray imp).
          lookupTech techs (fst (parseImplied i)) \<noteq> None \<longrightarrow> fst (parseImplied i) \<in> K"
        by (auto simp: allWithin_def)
      from fold_impliedStep_cases [OF assms(1) this, of cs st]
        Some True \<open>lookupTech techs n = Some tech\<close>
      show ?thesis by (simp add: visit_def)
    qed
  qed
qed

text \<open>
  One pass \<open>for (const [techName] of detected.entries())\<close>. The iterator of a \<open>Map\<close>
  also visits the entries added while it runs, so the pass walks the growing list by
  index. The flag is \<open>changed\<close>.
\<close>

function impliesPass ::
  "categories \<Rightarrow> technologies \<Rightarrow> nat \<Rightarrow> detected \<times> bool \<Rightarrow> detected \<times> bool" where
  "impliesPass cs techs i st =
     (if i < length (fst st)
      then impliesPass cs techs (Suc i) (visit cs techs (fst (fst st ! i)) st)
      else st)"
  by pat_completeness auto
termination
proof (relation "inv_image (less_than <*lex*> less_than)
    (\<lambda>(cs, techs, i, st). (missing techs (fst st), length (fst st) - i))", goal_cases)
  case 1
  show ?case by (intro wf_inv_image wf_lex_prod wf_less_than)
next
  case (2 cs techs i st)
  with visit_cases [OF finite_addable allWithin_addable,
      where techs = techs and cs = cs and n = "fst (fst st ! i)" and st = st]
  show ?case by (auto simp: missing_def)
qed

declare impliesPass.simps [simp del]

lemma impliesPass_cases:
  assumes "finite K" and "allWithin techs K"
  shows "(fst (impliesPass cs techs i st) = fst st \<and> snd (impliesPass cs techs i st) = snd st) \<or>
         (card (K - fst ` set (fst (impliesPass cs techs i st))) < card (K - fst ` set (fst st)) \<and>
          snd (impliesPass cs techs i st))"
  using assms(2)
proof (induction cs techs i st rule: impliesPass.induct)
  case (1 cs techs i st)
  show ?case
  proof (cases "i < length (fst st)")
    case False
    then show ?thesis by (simp add: impliesPass.simps [of cs techs i st])
  next
    case True
    from "1.IH" [OF True "1.prems"] visit_cases [OF assms(1) "1.prems", of cs "fst (fst st ! i)" st] True
    show ?thesis by (auto simp: impliesPass.simps [of cs techs i st] intro: less_trans)
  qed
qed

text \<open>
  \<open>let changed = true; while (changed) { changed = false; ... }\<close>, returning the
  number of passes made together with the map.
\<close>

function impliesLoop :: "categories \<Rightarrow> technologies \<Rightarrow> detected \<Rightarrow> nat \<times> detected" where
  "impliesLoop cs techs det =
     (case impliesPass cs techs 0 (det, False) of
        (det', changed) \<Rightarrow>
          if changed then (case impliesLoop cs techs det' of (n, d) \<Rightarrow> (Suc n, d))
          else (1, det'))"
  by pat_completeness auto
termination
proof (relation "measure (\<lambda>(cs, techs, det). missing techs det)", goal_cases)
  case 1
  show ?case by simp
next
  case (2 cs techs det det' changed)
  then have "impliesPass cs techs 0 (det, False) = (det', True)" by simp
  with impliesPass_cases [OF finite_addable allWithin_addable,
      where techs = techs and cs = cs and i = 0 and st = "(det, False)"]
  show ?case by (auto simp: missing_def)
qed

declare impliesLoop.simps [simp del]

definition impliesClosure :: "categories \<Rightarrow> technologies \<Rightarrow> detected \<Rightarrow> detected" where
  "impliesClosure cs techs det = snd (impliesLoop cs techs det)"

definition passes :: "categories \<Rightarrow> technologies \<Rightarrow> detected \<Rightarrow> nat" where
  "passes cs techs det = fst (impliesLoop cs techs det)"

subsection \<open>Filter, sort and CMS selection\<close>

text \<open>
  \<open>Array.prototype.sort\<close> with a comparator is stable: an element moves behind another
  only when the comparator is positive. It is modelled by insertion from the right.
\<close>

fun insertBy :: "('a \<Rightarrow> 'a \<Rightarrow> jsnum) \<Rightarrow> 'a \<Rightarrow> 'a list \<Rightarrow> 'a list" where
  "insertBy cmp x [] = [x]"
| "insertBy cmp x (y # ys) =
     (if jgt (cmp x y) (Fin 0) then y # insertBy cmp x ys else x # y # ys)"

definition sortBy :: "('a \<Rightarrow> 'a \<Rightarrow> jsnum) \<Rightarrow> 'a list \<Rightarrow> 'a list" where
  "sortBy cmp xs = foldr (insertBy cmp) xs []"

text \<open>\<open>(a, b) => b.confidence - a.confidence\<close>\<close>

definition byConfidence :: "detection \<Rightarrow> detection \<Rightarrow> jsnum" where
  "byConfidence a b = jsub (d_confidence b) (d_confidence a)"

text \<open>\<open>d => d.confidence >= 50\<close>\<close>

definition aboveFloor :: "detection \<Rightarrow> bool" where
  "aboveFloor d = jge (d_confidence d) (Fin 50)"

text \<open>\<open>d => d.categories.some(c => c.id === 1)\<close>\<close>

definition isCms :: "detection \<Rightarrow> bool" where
  "isCms d = list_ex (\<lambda>c. cat_id c = 1) (d_categories d)"

definition detectedArray :: "detected \<Rightarrow> detection list" where
  "detectedArray det = sortBy byConfidence (filter aboveFloor (map snd det))"

record result =
  cms :: "string option"
  cmsDetails :: "detection option"
  detectedTechnologies :: "detection list"

definition finalize :: "detected \<Rightarrow> result" where
  "finalize det =
     (let arr = detectedArray det;
          c = find isCms arr
      in \<lparr>cms = (case c of None \<Rightarrow> None | Some d \<Rightarrow> orNull (Some (d_name d))),
          cmsDetails = c,
          detectedTechnologies = arr\<rparr>)"

definition emptyResult :: result where
  "emptyResult = \<lparr>cms = None, cmsDetails = None, detectedTechnologies = []\<rparr>"

subsection \<open>Collecting the page data and the two handlers\<close>

text \<open>
  Both handlers read \<open>error.message\<close>, which is itself a \<open>TypeError\<close> when what was
  thrown is \<open>null\<close> or \<open>undefined\<close>.
\<close>

definition messageError :: thrown where
  "messageError = ThrownError ''Cannot read properties of undefined''"

text \<open>
  The page and the collector, as the outcomes of the six reads \<open>collectPageData\<close>
  awaits, in the order it makes them.
\<close>

record page =
  pg_headers :: "thrown + (string \<rightharpoonup> string)"
  pg_cookies :: "thrown + cookie list"
  pg_html :: "thrown + string"
  pg_meta :: "thrown + (string \<rightharpoonup> string)"
  pg_jsGlobals :: "thrown + (string \<rightharpoonup> jsval)"
  pg_domResults :: "thrown + (string \<rightharpoonup> domResult)"

definition emptyData :: pageData where
  "emptyData =
     \<lparr>pd_meta = Map.empty, pd_jsGlobals = Map.empty, pd_html = [], pd_headers = Map.empty,
      pd_cookies = [], pd_domResults = Map.empty\<rparr>"

text \<open>
  \<open>catch (error) { console.error(..., error.message); }\<close> followed by
  \<open>return data\<close>: the data collected so far, unless reading the message throws.
\<close>

definition collectCatch :: "thrown \<Rightarrow> pageData \<Rightarrow> thrown + pageData" where
  "collectCatch e d =
     (case e of
        ThrownNullish \<Rightarrow> Inl messageError
      | ThrownError m \<Rightarrow> Inr d)"

definition collectPageData :: "page \<Rightarrow> thrown + pageData" where
  "collectPageData pg =
     (case pg_headers pg of
        Inl e \<Rightarrow> collectCatch e emptyData
      | Inr h \<Rightarrow>
     (case pg_cookies pg of
        Inl e \<Rightarrow> collectCatch e (emptyData\<lparr>pd_headers := h\<rparr>)
      | Inr c \<Rightarrow>
     (case pg_html pg of
        Inl e \<Rightarrow> collectCatch e (emptyData\<lparr>pd_headers := h, pd_cookies := c\<rparr>)
      | Inr t \<Rightarrow>
     (case pg_meta pg of
        Inl e \<Rightarrow> collectCatch e (emptyData\<lparr>pd_headers := h, pd_cookies := c, pd_html := t\<rparr>)
      | Inr m \<Rightarrow>
     (case pg_jsGlobals pg of
        Inl e \<Rightarrow>
          collectCatch e
            (emptyData\<lparr>pd_headers := h, pd_cookies := c, pd_html := t, pd_meta := m\<rparr>)
      | Inr j \<Rightarrow>
     (case pg_domResults pg of
        Inl e \<Rightarrow>
          collectCatch e
            (emptyData\<lparr>pd_headers := h, pd_cookies := c, pd_html := t, pd_meta := m,
               pd_jsGlobals := j\<rparr>)
      | Inr r \<Rightarrow>
          Inr (emptyData\<lparr>pd_headers := h, pd_cookies := c, pd_html := t, pd_meta := m,
                 pd_jsGlobals := j, pd_domResults := r\<rparr>)))))))"

text \<open>The \<open>try\<close> block of \<open>detectTechnologies\<close>.\<close>

definition detectTry ::
  "regexp_ctor \<Rightarrow> technologies \<Rightarrow> categories \<Rightarrow> page \<Rightarrow> string list \<Rightarrow> string list \<Rightarrow>
   thrown + result" where
  "detectTry rx techs cs pg scriptUrls xhrUrls =
     (case collectPageData pg of
        Inl e \<Rightarrow> Inl e
      | Inr pd \<Rightarrow>
          (case detectAll rx techs cs pd scriptUrls xhrUrls of
             Inl e \<Rightarrow> Inl e
           | Inr det \<Rightarrow> Inr (finalize (impliesClosure cs techs det))))"

text \<open>
  \<open>catch (error) { console.error(..., error.message); return {cms: null, ...}; }\<close>
\<close>

definition detectCatch :: "thrown \<Rightarrow> thrown + result" where
  "detectCatch e =
     (case e of
        ThrownNullish \<Rightarrow> Inl messageError
      | ThrownError m \<Rightarrow> Inr emptyResult)"

definition detectTechnologies ::
  "regexp_ctor \<Rightarrow> technologies \<Rightarrow> categories \<Rightarrow> page \<Rightarrow> string list \<Rightarrow> string list \<Rightarrow>
   thrown + result" where
  "detectTechnologies rx techs cs pg scriptUrls xhrUrls =
     (case detectTry rx techs cs pg scriptUrls xhrUrls of
        Inl e \<Rightarrow> detectCatch e
      | Inr r \<Rightarrow> Inr r)"

subsection \<open>The evaluations of one technology, in order\<close>

text \<open>
  To speak of the versions that the evaluations of one technology produce, the same
  eight blocks are written once more as the list of the results they apply, in the order
  they apply them: a \<open>testPatterns\<close> result, or \<open>presence\<close> for
  \<open>totalConfidence += 100\<close>. \<open>evalTech_hits\<close> below shows that the loop body, when it
  returns, is the fold of \<open>applyResult\<close> over this list.
\<close>

text \<open>What a call of \<open>testPatterns\<close> returned.\<close>

definition matched :: "thrown + test_result option \<Rightarrow> test_result option" where
  "matched t = (case t of Inl err \<Rightarrow> None | Inr r \<Rightarrow> r)"

definition presence :: test_result where
  "presence = \<lparr>r_version = None, r_confidence = Fin 100\<rparr>"

definition applyAll :: "test_result option list \<Rightarrow> acc \<Rightarrow> acc" where
  "applyAll hs st = fold (\<lambda>h s. applyResult s h) hs st"

definition urlHits :: "regexp_ctor \<Rightarrow> patterns option \<Rightarrow> string list \<Rightarrow> test_result option list" where
  "urlHits rx field urls =
     (case field of
        None \<Rightarrow> []
      | Some p \<Rightarrow>
          if truthyPatterns p \<and> urls \<noteq> []
          then map (\<lambda>url. matched (testPatterns rx (PArr (asArray p)) (VStr url))) urls
          else [])"

definition metaHit :: "regexp_ctor \<Rightarrow> pageData \<Rightarrow> string \<times> patterns \<Rightarrow> test_result option list" where
  "metaHit rx pd e =
     (case getValue (pd_meta pd) (toLowerCase (fst e)) of
        None \<Rightarrow> []
      | Some metaValue \<Rightarrow>
          if \<not> truthyValue metaValue then []
          else (case matched (testPatterns rx (snd e) metaValue) of
                  Some r \<Rightarrow> [Some r]
                | None \<Rightarrow> if snd e = PStr [] then [Some presence] else []))"

definition jsHit :: "regexp_ctor \<Rightarrow> pageData \<Rightarrow> string \<times> patterns \<Rightarrow> test_result option list" where
  "jsHit rx pd e =
     (case globalString pd (fst e) of
        None \<Rightarrow> []
      | Some jsString \<Rightarrow>
          if snd e = PStr [] then [Some presence]
          else [matched (testPatterns rx (snd e) (VStr jsString))])"

definition htmlHits :: "regexp_ctor \<Rightarrow> technology \<Rightarrow> pageData \<Rightarrow> test_result option list" where
  "htmlHits rx tech pd =
     (case t_html tech of
        None \<Rightarrow> []
      | Some p \<Rightarrow>
          if truthyPatterns p \<and> pd_html pd \<noteq> []
          then [matched (testPatterns rx (PArr (asArray p)) (VStr (pd_html pd)))]
          else [])"

definition headerHit :: "regexp_ctor \<Rightarrow> pageData \<Rightarrow> string \<times> patterns \<Rightarrow> test_result option list" where
  "headerHit rx pd e =
     (case getValue (pd_headers pd) (toLowerCase (fst e)) of
        None \<Rightarrow> []
      | Some headerValue \<Rightarrow>
          if \<not> truthyValue headerValue then []
          else if snd e = PStr [] then [Some presence]
          else [matched (testPatterns rx (snd e) headerValue)])"

definition cookieHit :: "regexp_ctor \<Rightarrow> pageData \<Rightarrow> string \<times> patterns \<Rightarrow> test_result option list" where
  "cookieHit rx pd e =
     (case find (\<lambda>c. toLowerCase (ck_name c) = toLowerCase (fst e)) (pd_cookies pd) of
        None \<Rightarrow> []
      | Some c \<Rightarrow>
          if snd e = PStr [] then [Some presence]
          else [matched (testPatterns rx (snd e) (VStr (ck_value c)))])"

definition attrHit :: "regexp_ctor \<Rightarrow> domResult \<Rightarrow> string \<times> patterns \<Rightarrow> test_result option list" where
  "attrHit rx dr e =
     (case getValue (dr_attributes dr) (fst e) of
        None \<Rightarrow> []
      | Some attrValue \<Rightarrow>
          if \<not> truthyValue attrValue then []
          else [matched (testPatterns rx (snd e) attrValue)])"

definition domTextHits :: "regexp_ctor \<Rightarrow> domResult \<Rightarrow> domChecks \<Rightarrow> test_result option list" where
  "domTextHits rx dr ch =
     (case c_text ch of
        None \<Rightarrow> []
      | Some p \<Rightarrow>
          if truthyPatterns p \<and> dr_text dr \<noteq> []
          then [matched (testPatterns rx p (VStr (dr_text dr)))]
          else [])"

definition domAttrHits :: "regexp_ctor \<Rightarrow> domResult \<Rightarrow> domChecks \<Rightarrow> test_result option list" where
  "domAttrHits rx dr ch =
     (case c_attributes ch of None \<Rightarrow> [] | Some es \<Rightarrow> concat (map (attrHit rx dr) es))"

definition domHit :: "regexp_ctor \<Rightarrow> pageData \<Rightarrow> string \<times> domChecks \<Rightarrow> test_result option list" where
  "domHit rx pd e =
     (case pd_domResults pd (fst e) of
        None \<Rightarrow> []
      | Some dr \<Rightarrow>
          if \<not> dr_exists dr then []
          else if noKeys (snd e) \<or> c_exists (snd e) = Some [] then [Some presence]
          else domTextHits rx dr (snd e) @ domAttrHits rx dr (snd e))"

definition domHits :: "regexp_ctor \<Rightarrow> technology \<Rightarrow> pageData \<Rightarrow> test_result option list" where
  "domHits rx tech pd =
     (case t_dom tech of
        None \<Rightarrow> []
      | Some (DomStr s) \<Rightarrow> if s = [] then [] else domHit rx pd (s, emptyChecks)
      | Some (DomObj es) \<Rightarrow> concat (map (domHit rx pd) es))"

definition entryHits ::
  "(string \<times> patterns \<Rightarrow> test_result option list) \<Rightarrow> (string \<times> patterns) list option \<Rightarrow>
   test_result option list" where
  "entryHits f field = (case field of None \<Rightarrow> [] | Some es \<Rightarrow> concat (map f es))"

definition evaluations ::
  "regexp_ctor \<Rightarrow> technology \<Rightarrow> pageData \<Rightarrow> string list \<Rightarrow> string list \<Rightarrow> test_result option list" where
  "evaluations rx tech pd scriptUrls xhrUrls =
     urlHits rx (t_scriptSrc tech) scriptUrls @ urlHits rx (t_xhr tech) xhrUrls @
     entryHits (metaHit rx pd) (t_meta tech) @ entryHits (jsHit rx pd) (t_js tech) @
     htmlHits rx tech pd @ entryHits (headerHit rx pd) (t_headers tech) @
     entryHits (cookieHit rx pd) (t_cookies tech) @ domHits rx tech pd"

definition versions :: "test_result option list \<Rightarrow> string list" where
  "versions hs =
     concat (map (\<lambda>h. case h of
                        None \<Rightarrow> []
                      | Some r \<Rightarrow> (case r_version r of
                                     None \<Rightarrow> []
                                   | Some v \<Rightarrow> if v = [] then [] else [v])) hs)"

subsection \<open>Notions used in the statements\<close>

text \<open>The confidence of a record as a sort key, larger confidences first.\<close>

definition confKey :: "detection \<Rightarrow> int" where
  "confKey d = (case d_confidence d of Fin c \<Rightarrow> - c | NaN \<Rightarrow> 0)"

definition isFin :: "detection \<Rightarrow> bool" where
  "isFin d = (d_confidence d \<noteq> NaN)"

text \<open>What \<open>Math.min(newConfidence, 100)\<close> leaves: \<open>NaN\<close> or at most 100.\<close>

definition confOK :: "detection \<Rightarrow> bool" where
  "confOK d = (case d_confidence d of NaN \<Rightarrow> True | Fin c \<Rightarrow> c \<le> 100)"

definition allOK :: "detected \<Rightarrow> bool" where
  "allOK det = list_all (\<lambda>p. confOK (snd p)) det"

text \<open>
  A result map closed under the rules of the database: whatever a technology in the map
  implies is in the map, if the database has it.
\<close>

definition closed :: "technologies \<Rightarrow> detected \<Rightarrow> bool" where
  "closed techs det =
     list_all (\<lambda>p. case map_of techs (fst p) of
                     None \<Rightarrow> True
                   | Some tech \<Rightarrow>
                       list_all (\<lambda>m. map_of techs m = None \<or> mapHas det m) (impliedNames tech))
       det"

text \<open>
  A database none of whose rules implies a name that \<open>technologies[name]\<close> finds only
  as an inherited member of \<open>Object.prototype\<close>.
\<close>

definition storePlain :: "technologies \<Rightarrow> bool" where
  "storePlain techs =
     list_all (\<lambda>p. list_all (\<lambda>m. m \<notin> set protoMembers \<or> map_of techs m \<noteq> None)
                     (impliedNames (snd p)))
       techs"

text \<open>
  A rule no key of which names an inherited member where the key is looked up in a plain
  object: the names of its meta and header entries, lower-cased, and the attribute names
  of its DOM checks.
\<close>

definition entries :: "(string \<times> 'a) list option \<Rightarrow> (string \<times> 'a) list" where
  "entries field = (case field of None \<Rightarrow> [] | Some es \<Rightarrow> es)"

definition domEntries :: "domSpec option \<Rightarrow> (string \<times> domChecks) list" where
  "domEntries field =
     (case field of
        None \<Rightarrow> []
      | Some (DomStr s) \<Rightarrow> if s = [] then [] else [(s, emptyChecks)]
      | Some (DomObj es) \<Rightarrow> es)"

definition plainKeys :: "technology \<Rightarrow> bool" where
  "plainKeys tech =
     (list_all (\<lambda>e. toLowerCase (fst e) \<notin> set protoMembers) (entries (t_meta tech)) \<and>
      list_all (\<lambda>e. toLowerCase (fst e) \<notin> set protoMembers) (entries (t_headers tech)) \<and>
      list_all (\<lambda>d. list_all (\<lambda>e. fst e \<notin> set protoMembers) (entries (c_attributes (snd d))))
        (domEntries (t_dom tech)))"

subsection \<open>Example data\<close>

definition noTech :: technology where
  "noTech =
     \<lparr>t_scriptSrc = None, t_xhr = None, t_meta = None, t_js = None, t_html = None,
      t_headers = None, t_cookies = None, t_dom = None, t_implies = None, t_cats = None,
      t_website = None, t_icon = None\<rparr>"

definition noCategories :: categories where
  "noCategories = (\<lambda>c. None)"

definition mkDetection :: "string \<Rightarrow> int \<Rightarrow> string option \<Rightarrow> int list \<Rightarrow> detection" where
  "mkDetection n c v cats =
     \<lparr>d_name = n, d_confidence = Fin c, d_version = v,
      d_categories = map (\<lambda>i. \<lparr>cat_id = i, cat_name = ''Unknown''\<rparr>) cats,
      d_website = None, d_icon = None\<rparr>"

text \<open>
  A fragment of \<open>RegExp\<close> for the examples: the empty body, a body of decimal digits,
  and a body of decimal digits inside one pair of parentheses. On these bodies it
  answers as \<open>new RegExp(body, 'i')\<close> followed by \<open>value.match\<close> does; every other body
  is refused.
\<close>

definition allDigits :: "string \<Rightarrow> bool" where
  "allDigits s = (s \<noteq> [] \<and> list_all isDigit s)"

definition demoRegExp :: regexp_ctor where
  "demoRegExp body =
     (if body = [] then Some (\<lambda>v. Some [Some []])
      else if allDigits body
      then Some (\<lambda>v. if includesStr v body then Some [Some body] else None)
      else if hd body = CHR ''('' \<and> last body = CHR '')'' \<and> allDigits (butlast (tl body))
      then Some (\<lambda>v. if includesStr v (butlast (tl body))
                       then Some [Some (butlast (tl body)), Some (butlast (tl body))]
                       else None)
      else None)"

text \<open>The raw pattern \<open>body\;version:\1\<close>.\<close>

definition versioned :: "string \<Rightarrow> string" where
  "versioned body = body @ sep @ ''version:'' @ [bslash] @ ''1''"

text \<open>A rule with a versioned script pattern and a versioned HTML pattern.\<close>

definition techTwoVersions :: technology where
  "techTwoVersions =
     noTech\<lparr>t_scriptSrc := Some (PStr (versioned ''(1)'')),
            t_html := Some (PStr (versioned ''(2)''))\<rparr>"

text \<open>The rule \<open>headers: {"x-shopify-stage": ""}\<close> of the second scenario.\<close>

definition shopify :: technology where
  "shopify = noTech\<lparr>t_headers := Some [(''x-shopify-stage'', PStr [])]\<rparr>"

text \<open>A rule with one plain script pattern.\<close>

definition techScript :: technology where
  "techScript = noTech\<lparr>t_scriptSrc := Some (PStr ''1'')\<rparr>"

text \<open>A page whose six reads all succeed and find nothing.\<close>

definition blankPage :: page where
  "blankPage =
     \<lparr>pg_headers = Inr Map.empty, pg_cookies = Inr [], pg_html = Inr [],
      pg_meta = Inr Map.empty, pg_jsGlobals = Inr Map.empty, pg_domResults = Inr Map.empty\<rparr>"

text \<open>A page whose first read throws an error object.\<close>

definition failingPage :: page where
  "failingPage = blankPage\<lparr>pg_headers := Inl (ThrownError ''boom'')\<rparr>"

text \<open>A page whose first read throws \<open>undefined\<close>.\<close>

definition nullishPage :: page where
  "nullishPage = blankPage\<lparr>pg_headers := Inl ThrownNullish\<rparr>"

text \<open>A database with a cycle: A implies B and B implies A.\<close>

definition techImplies :: "string \<Rightarrow> technology" where
  "techImplies n = noTech\<lparr>t_implies := Some (PStr n)\<rparr>"

definition cyclicStore :: technologies where
  "cyclicStore =
     [(''A'', techImplies (''B'' @ sep @ ''confidence:50'')), (''B'', techImplies ''A'')]"

text \<open>Four records in detection order, one below the floor and two of equal confidence.\<close>

definition rankingExample :: detected where
  "rankingExample =
     [(''a'', mkDetection ''a'' 60 None []), (''b'', mkDetection ''b'' 40 None []),
      (''c'', mkDetection ''c'' 90 None []), (''d'', mkDetection ''d'' 60 None [])]"

text \<open>
  Two records of category 1 with equal confidence, after a record of higher confidence
  that is not of category 1.
\<close>

definition cmsExample :: detected where
  "cmsExample =
     [(''x'', mkDetection ''x'' 100 None [2]), (''w'', mkDetection ''w'' 80 None [1]),
      (''j'', mkDetection ''j'' 80 None [1, 2])]"

text \<open>A database whose only rule implies the name of an inherited member.\<close>

definition inheritedStore :: technologies where
  "inheritedStore = [(''A'', techImplies ''constructor'')]"

text \<open>
  A rule with a meta entry under the name of an inherited member, and a database that
  holds it after a rule the script URL \<open>a1.js\<close> satisfies.
\<close>

definition techInheritedKey :: technology where
  "techInheritedKey = noTech\<lparr>t_meta := Some [(''constructor'', PStr ''1'')]\<rparr>"

definition throwingStore :: technologies where
  "throwingStore = [(''T'', techScript), (''U'', techInheritedKey)]"

text \<open>A page whose fifth read throws an error object, after four reads that succeed.\<close>

definition lateFailingPage :: page where
  "lateFailingPage =
     blankPage\<lparr>pg_headers := Inr [''server'' \<mapsto> ''1''], pg_html := Inr ''<p>2</p>'',
       pg_jsGlobals := Inl (ThrownError ''boom'')\<rparr>"

text \<open>A page whose last read throws \<open>undefined\<close>.\<close>

definition lateNullishPage :: page where
  "lateNullishPage = blankPage\<lparr>pg_domResults := Inl ThrownNullish\<rparr>"

text \<open>A database whose only technology is named by the empty string and is of category 1.\<close>

definition emptyNameStore :: technologies where
  "emptyNameStore = [([], techScript\<lparr>t_cats := Some [1]\<rparr>)]"

section \<open>Properties\<close>

subsection \<open>Auxiliary facts\<close>

lemmas demo_simps =
  demoRegExp_def allDigits_def isDigit_def versioned_def sep_def bslash_def splitStr_def
  parsePattern_def testPatterns_def extractVersion_def matchAt_def parseInt_def parseDigits_def
  digitsVal_def isSpace_def

lemmas check_defs =
  checkUrls_def checkMeta_def checkJs_def checkHtml_def checkHeaders_def checkCookies_def
  checkDom_def applyTest_def andThen_def getValue_def globalString_def protoMembers_def

lemma map_of_mapSet: "map_of (mapSet k v det) = (map_of det)(k \<mapsto> v)"
  by (induction det) (auto simp: fun_eq_iff)

lemma applyAll_Nil [simp]: "applyAll [] st = st"
  by (simp add: applyAll_def)

lemma applyAll_Cons [simp]: "applyAll (h # hs) st = applyAll hs (applyResult st h)"
  by (simp add: applyAll_def)

lemma applyAll_append [simp]: "applyAll (hs @ hs') st = applyAll hs' (applyAll hs st)"
  by (simp add: applyAll_def)

lemma addPresence_apply: "addPresence st = applyResult st (Some presence)"
  by (cases st) (simp add: presence_def)

text \<open>The only exception of the loop body is the one of \<open>value.match\<close>.\<close>

lemma testList_Inl: "testList rx ps v = Inl err \<Longrightarrow> err = matchError"
  by (induction ps) (auto split: option.splits jsvalue.splits)

lemma testPatterns_Inl: "testPatterns rx pats v = Inl err \<Longrightarrow> err = matchError"
  by (auto simp: testPatterns_def split: if_splits dest: testList_Inl)

lemma testList_VStr: "\<exists>r. testList rx ps (VStr s) = Inr r"
  by (induction ps) (auto split: option.splits)

lemma testPatterns_VStr: "\<exists>r. testPatterns rx pats (VStr s) = Inr r"
  using testList_VStr [of rx "asArray pats" s] by (simp add: testPatterns_def)

text \<open>
  Each block either throws that exception or applies its list of results; \<open>agrees\<close>
  says so of an outcome \<open>r\<close>, a list \<open>hs\<close> and the state before.
\<close>

definition agrees :: "thrown + acc \<Rightarrow> test_result option list \<Rightarrow> acc \<Rightarrow> bool" where
  "agrees r hs st = (r = Inl matchError \<or> r = Inr (applyAll hs st))"

lemma agrees_Inr [simp]: "agrees (Inr st) [] st"
  by (simp add: agrees_def)

lemma agrees_applyTest:
  "agrees (applyTest st (testPatterns rx pats v)) [matched (testPatterns rx pats v)] st"
  by (cases "testPatterns rx pats v")
    (auto simp: agrees_def applyTest_def matched_def dest: testPatterns_Inl)

lemma agrees_foldE:
  assumes "\<And>e st. agrees (step e st) (hit e) st"
  shows "agrees (foldE step es st) (concat (map hit es)) st"
proof (induction es arbitrary: st)
  case Nil
  show ?case by simp
next
  case (Cons e es)
  from assms [of e st] Cons [of "applyAll (hit e) st"] show ?case
    by (auto simp: agrees_def)
qed

lemma agrees_andThen:
  assumes "agrees r hs st" and "\<And>s. agrees (f s) hs' s"
  shows "agrees (andThen r f) (hs @ hs') st"
  using assms(1) assms(2) [of "applyAll hs st"]
  by (auto simp: agrees_def andThen_def)

lemma checkUrls_hits: "agrees (checkUrls rx field urls st) (urlHits rx field urls) st"
proof -
  have "agrees (foldE (\<lambda>url s. applyTest s (testPatterns rx p (VStr url))) urls st)
      (concat (map (\<lambda>url. [matched (testPatterns rx p (VStr url))]) urls)) st" for p
    by (rule agrees_foldE) (rule agrees_applyTest)
  moreover have "concat (map (\<lambda>url. [f url]) urls) = map f urls" for f :: "string \<Rightarrow> test_result option"
    by (induction urls) simp_all
  ultimately show ?thesis
    by (simp add: checkUrls_def urlHits_def split: option.splits)
qed

lemma metaStep_hits: "agrees (metaStep rx pd e st) (metaHit rx pd e) st"
proof (cases "getValue (pd_meta pd) (toLowerCase (fst e))")
  case None
  then show ?thesis by (simp add: metaStep_def metaHit_def)
next
  case (Some v)
  show ?thesis
  proof (cases "testPatterns rx (snd e) v")
    case (Inl err)
    with testPatterns_Inl [OF Inl] Some show ?thesis
      by (simp add: metaStep_def metaHit_def agrees_def)
  next
    case (Inr r)
    with Some show ?thesis
      by (cases r)
        (simp_all add: metaStep_def metaHit_def agrees_def matched_def addPresence_apply)
  qed
qed

lemma jsStep_hits: "agrees (jsStep rx pd e st) (jsHit rx pd e) st"
  using agrees_applyTest [of st rx "snd e"]
  by (simp add: jsStep_def jsHit_def addPresence_apply agrees_def split: option.splits)

lemma headerStep_hits: "agrees (headerStep rx pd e st) (headerHit rx pd e) st"
  using agrees_applyTest [of st rx "snd e"]
  by (simp add: headerStep_def headerHit_def addPresence_apply agrees_def split: option.splits)

lemma cookieStep_hits: "agrees (cookieStep rx pd e st) (cookieHit rx pd e) st"
  using agrees_applyTest [of st rx "snd e"]
  by (simp add: cookieStep_def cookieHit_def addPresence_apply agrees_def split: option.splits)

lemma attrStep_hits: "agrees (attrStep rx dr e st) (attrHit rx dr e) st"
  using agrees_applyTest [of st rx "snd e"]
  by (simp add: attrStep_def attrHit_def agrees_def split: option.splits)

lemma domText_hits: "agrees (domText rx dr ch st) (domTextHits rx dr ch) st"
  using agrees_applyTest [of st rx]
  by (simp add: domText_def domTextHits_def agrees_def split: option.splits)

lemma domAttrs_hits: "agrees (domAttrs rx dr ch st) (domAttrHits rx dr ch) st"
  using agrees_foldE [of "attrStep rx dr" "attrHit rx dr", OF attrStep_hits]
  by (simp add: domAttrs_def domAttrHits_def split: option.splits)

lemma domStep_hits: "agrees (domStep rx pd e st) (domHit rx pd e) st"
proof (cases "pd_domResults pd (fst e)")
  case None
  then show ?thesis by (simp add: domStep_def domHit_def)
next
  case (Some dr)
  have "agrees (andThen (domText rx dr (snd e) st) (domAttrs rx dr (snd e)))
      (domTextHits rx dr (snd e) @ domAttrHits rx dr (snd e)) st"
    by (rule agrees_andThen) (rule domText_hits, rule domAttrs_hits)
  with Some show ?thesis
    by (simp add: domStep_def domHit_def addPresence_apply agrees_def)
qed

lemma checkMeta_hits:
  "agrees (checkMeta rx tech pd st) (entryHits (metaHit rx pd) (t_meta tech)) st"
  using agrees_foldE [of "metaStep rx pd" "metaHit rx pd", OF metaStep_hits]
  by (simp add: checkMeta_def entryHits_def split: option.splits)

lemma checkJs_hits: "agrees (checkJs rx tech pd st) (entryHits (jsHit rx pd) (t_js tech)) st"
  using agrees_foldE [of "jsStep rx pd" "jsHit rx pd", OF jsStep_hits]
  by (simp add: checkJs_def entryHits_def split: option.splits)

lemma checkHeaders_hits:
  "agrees (checkHeaders rx tech pd st) (entryHits (headerHit rx pd) (t_headers tech)) st"
  using agrees_foldE [of "headerStep rx pd" "headerHit rx pd", OF headerStep_hits]
  by (simp add: checkHeaders_def entryHits_def split: option.splits)

lemma checkCookies_hits:
  "agrees (checkCookies rx tech pd st) (entryHits (cookieHit rx pd) (t_cookies tech)) st"
  using agrees_foldE [of "cookieStep rx pd" "cookieHit rx pd", OF cookieStep_hits]
  by (simp add: checkCookies_def entryHits_def split: option.splits)

lemma checkHtml_hits: "agrees (checkHtml rx tech pd st) (htmlHits rx tech pd) st"
  using agrees_applyTest [of st rx]
  by (simp add: checkHtml_def htmlHits_def agrees_def split: option.splits)

lemma checkDom_hits: "agrees (checkDom rx tech pd st) (domHits rx tech pd) st"
  using agrees_foldE [of "domStep rx pd" "domHit rx pd", OF domStep_hits]
    agrees_foldE [of "domStep rx pd" "domHit rx pd" "[(s, emptyChecks)]" st for s, OF domStep_hits]
  by (simp add: checkDom_def domHits_def split: option.splits domSpec.splits)

lemma evalTech_hits:
  "agrees (evalTech rx tech pd scriptUrls xhrUrls)
     (evaluations rx tech pd scriptUrls xhrUrls) (Fin 0, None)"
proof -
  have e: "evaluations rx tech pd scriptUrls xhrUrls =
      ((((((urlHits rx (t_scriptSrc tech) scriptUrls @ urlHits rx (t_xhr tech) xhrUrls) @
      entryHits (metaHit rx pd) (t_meta tech)) @ entryHits (jsHit rx pd) (t_js tech)) @
      htmlHits rx tech pd) @ entryHits (headerHit rx pd) (t_headers tech)) @
      entryHits (cookieHit rx pd) (t_cookies tech)) @ domHits rx tech pd"
    by (simp add: evaluations_def)
  show ?thesis
    unfolding evalTech_def e
    by (intro agrees_andThen checkUrls_hits checkMeta_hits checkJs_hits checkHtml_hits
        checkHeaders_hits checkCookies_hits checkDom_hits)
qed

lemma evalTech_Inl: "evalTech rx tech pd scriptUrls xhrUrls = Inl err \<Longrightarrow> err = matchError"
  using evalTech_hits [of rx tech pd scriptUrls xhrUrls] by (auto simp: agrees_def)

lemma versions_append [simp]: "versions (hs @ hs') = versions hs @ versions hs'"
  by (simp add: versions_def)

lemma snd_applyAll:
  "snd (applyAll hs st) = (if versions hs = [] then snd st else Some (last (versions hs)))"
proof (induction hs arbitrary: st)
  case Nil
  show ?case by (simp add: versions_def)
next
  case (Cons h hs)
  have v: "versions (h # hs) = versions [h] @ versions hs"
    by (simp add: versions_def)
  obtain t w where st: "st = (t, w)" by (cases st)
  show ?case
    unfolding applyAll_Cons Cons v
    by (cases h) (auto simp: st versions_def split: option.splits)
qed

text \<open>
  The loop body returns when no key of the rule names an inherited member: a value that
  is a string never makes \<open>testPatterns\<close> throw.
\<close>

lemma applyTest_VStr: "\<exists>st'. applyTest st (testPatterns rx pats (VStr s)) = Inr st'"
  using testPatterns_VStr [of rx pats s] by (auto simp: applyTest_def)

lemma foldE_returns:
  assumes "\<And>x s. x \<in> set xs \<Longrightarrow> \<exists>s'. f x s = Inr s'"
  shows "\<exists>s'. foldE f xs s = Inr s'"
  using assms
proof (induction xs arbitrary: s)
  case Nil
  show ?case by simp
next
  case (Cons x xs)
  from Cons.prems [of x s] obtain s1 where "f x s = Inr s1" by auto
  moreover from Cons.IH [of s1] Cons.prems have "\<exists>s'. foldE f xs s1 = Inr s'" by simp
  ultimately show ?case by simp
qed

lemma andThen_returns:
  assumes "\<exists>s. r = Inr s" and "\<And>s. \<exists>s'. f s = Inr s'"
  shows "\<exists>s'. andThen r f = Inr s'"
  using assms by (auto simp: andThen_def)

lemma getValue_plain:
  "k \<notin> set protoMembers \<Longrightarrow> getValue obj k = None \<or> (\<exists>s. getValue obj k = Some (VStr s))"
  by (simp add: getValue_def split: option.splits)

lemma checkUrls_returns: "\<exists>st'. checkUrls rx field urls st = Inr st'"
proof -
  have "\<exists>s'. foldE (\<lambda>url s. applyTest s (testPatterns rx p (VStr url))) urls st = Inr s'" for p
    by (intro foldE_returns applyTest_VStr)
  then show ?thesis
    by (auto simp: checkUrls_def split: option.splits)
qed

lemma metaStep_returns:
  assumes "toLowerCase (fst e) \<notin> set protoMembers"
  shows "\<exists>st'. metaStep rx pd e st = Inr st'"
proof -
  from getValue_plain [OF assms, of "pd_meta pd"]
  consider "getValue (pd_meta pd) (toLowerCase (fst e)) = None"
    | s where "getValue (pd_meta pd) (toLowerCase (fst e)) = Some (VStr s)"
    by auto
  then show ?thesis
  proof cases
    case 1
    then show ?thesis by (simp add: metaStep_def)
  next
    case 2
    from testPatterns_VStr [of rx "snd e" s]
    obtain r where "testPatterns rx (snd e) (VStr s) = Inr r" ..
    with 2 show ?thesis by (cases r) (simp_all add: metaStep_def)
  qed
qed

lemma headerStep_returns:
  assumes "toLowerCase (fst e) \<notin> set protoMembers"
  shows "\<exists>st'. headerStep rx pd e st = Inr st'"
  using getValue_plain [OF assms, of "pd_headers pd"] applyTest_VStr [of st rx "snd e"]
  by (auto simp: headerStep_def split: option.splits)

lemma attrStep_returns:
  assumes "fst e \<notin> set protoMembers"
  shows "\<exists>st'. attrStep rx dr e st = Inr st'"
  using getValue_plain [OF assms, of "dr_attributes dr"] applyTest_VStr [of st rx "snd e"]
  by (auto simp: attrStep_def split: option.splits)

lemma jsStep_returns: "\<exists>st'. jsStep rx pd e st = Inr st'"
  using applyTest_VStr [of st rx "snd e"] by (auto simp: jsStep_def split: option.splits)

lemma cookieStep_returns: "\<exists>st'. cookieStep rx pd e st = Inr st'"
  using applyTest_VStr [of st rx "snd e"] by (auto simp: cookieStep_def split: option.splits)

lemma checkHtml_returns: "\<exists>st'. checkHtml rx tech pd st = Inr st'"
  using applyTest_VStr [of st rx] by (auto simp: checkHtml_def split: option.splits)

lemma domStep_returns:
  assumes "list_all (\<lambda>e. fst e \<notin> set protoMembers) (entries (c_attributes (snd d)))"
  shows "\<exists>st'. domStep rx pd d st = Inr st'"
proof (cases "pd_domResults pd (fst d)")
  case None
  then show ?thesis by (simp add: domStep_def)
next
  case (Some dr)
  have t: "\<exists>s. domText rx dr (snd d) st = Inr s"
    using applyTest_VStr [of st rx] by (auto simp: domText_def split: option.splits)
  have a: "\<exists>s'. domAttrs rx dr (snd d) s = Inr s'" for s
  proof (cases "c_attributes (snd d)")
    case None
    then show ?thesis by (simp add: domAttrs_def)
  next
    case (Some es)
    with assms have "\<And>x. x \<in> set es \<Longrightarrow> fst x \<notin> set protoMembers"
      by (simp add: entries_def list_all_iff)
    then have "\<exists>s'. foldE (attrStep rx dr) es s = Inr s'"
      by (intro foldE_returns attrStep_returns)
    with Some show ?thesis by (simp add: domAttrs_def)
  qed
  from andThen_returns [OF t a] Some show ?thesis
    by (simp add: domStep_def)
qed

lemma evalTech_returns:
  assumes "plainKeys tech"
  shows "\<exists>st. evalTech rx tech pd scriptUrls xhrUrls = Inr st"
proof -
  have m: "\<exists>s'. checkMeta rx tech pd s = Inr s'" for s
  proof (cases "t_meta tech")
    case None
    then show ?thesis by (simp add: checkMeta_def)
  next
    case (Some es)
    with assms have "\<And>x. x \<in> set es \<Longrightarrow> toLowerCase (fst x) \<notin> set protoMembers"
      by (simp add: plainKeys_def entries_def list_all_iff)
    then have "\<exists>s'. foldE (metaStep rx pd) es s = Inr s'"
      by (intro foldE_returns metaStep_returns)
    with Some show ?thesis by (simp add: checkMeta_def)
  qed
  have h: "\<exists>s'. checkHeaders rx tech pd s = Inr s'" for s
  proof (cases "t_headers tech")
    case None
    then show ?thesis by (simp add: checkHeaders_def)
  next
    case (Some es)
    with assms have "\<And>x. x \<in> set es \<Longrightarrow> toLowerCase (fst x) \<notin> set protoMembers"
      by (simp add: plainKeys_def entries_def list_all_iff)
    then have "\<exists>s'. foldE (headerStep rx pd) es s = Inr s'"
      by (intro foldE_returns headerStep_returns)
    with Some show ?thesis by (simp add: checkHeaders_def)
  qed
  have j: "\<exists>s'. checkJs rx tech pd s = Inr s'" for s
    using foldE_returns [of _ "jsStep rx pd" s, OF jsStep_returns]
    by (simp add: checkJs_def split: option.splits)
  have c: "\<exists>s'. checkCookies rx tech pd s = Inr s'" for s
    using foldE_returns [of _ "cookieStep rx pd" s, OF cookieStep_returns]
    by (simp add: checkCookies_def split: option.splits)
  have d: "\<exists>s'. checkDom rx tech pd s = Inr s'" for s
  proof -
    from assms have "\<And>x. x \<in> set (domEntries (t_dom tech)) \<Longrightarrow>
        list_all (\<lambda>e. fst e \<notin> set protoMembers) (entries (c_attributes (snd x)))"
      by (simp add: plainKeys_def list_all_iff)
    then have "\<exists>s'. foldE (domStep rx pd) (domEntries (t_dom tech)) s = Inr s'"
      by (intro foldE_returns domStep_returns)
    then show ?thesis
      by (simp add: checkDom_def domEntries_def split: option.splits domSpec.splits if_splits)
  qed
  show ?thesis
    unfolding evalTech_def
    by (intro andThen_returns checkUrls_returns checkHtml_returns m h j c d)
qed

subsection \<open>Version extraction across the signal evaluations\<close>

text \<open>
  C1 (as amended). For every technology rule and every signal snapshot, the version kept
  by one evaluation run over that technology is the LAST non-empty version produced by
  the signal evaluations, taken in the order scriptSrc, xhr, meta, js, html, headers,
  cookies, dom: every evaluation that yields a version overwrites the version found
  before. When no evaluation yields a version, none is kept. The run returns whenever
  no key of the rule names an inherited member of \<open>Object.prototype\<close>; when it does not
  return, it has thrown the \<open>TypeError\<close> of \<open>value.match\<close>.
\<close>

theorem version_is_last_found:
  "(evalTech rx tech pd scriptUrls xhrUrls = Inr st \<longrightarrow>
      snd st =
        (if versions (evaluations rx tech pd scriptUrls xhrUrls) = [] then None
         else Some (last (versions (evaluations rx tech pd scriptUrls xhrUrls))))) \<and>
   (evalTech rx tech pd scriptUrls xhrUrls = Inl err \<longrightarrow> err = matchError) \<and>
   (plainKeys tech \<longrightarrow> (\<exists>st'. evalTech rx tech pd scriptUrls xhrUrls = Inr st'))"
  using evalTech_hits [of rx tech pd scriptUrls xhrUrls]
    evalTech_returns [of tech rx pd scriptUrls xhrUrls]
  by (auto simp: agrees_def snd_applyAll)

text \<open>
  The script URL yields version 1, the HTML yields version 2 afterwards, and 2 is kept.
\<close>

theorem version_is_last_found_witness:
  "plainKeys techTwoVersions \<and>
   evalTech demoRegExp techTwoVersions (emptyData\<lparr>pd_html := ''<p>2</p>''\<rparr>) [''a1.js''] []
     = Inr (Fin 200, Some ''2'') \<and>
   snd (Fin 200 :: jsnum, Some ''2'') =
     Some (last (versions (evaluations demoRegExp techTwoVersions
       (emptyData\<lparr>pd_html := ''<p>2</p>''\<rparr>) [''a1.js''] []))) \<and>
   evalTech demoRegExp techInheritedKey emptyData [] [] = Inl matchError"
proof -
  have v: "versions (evaluations demoRegExp techTwoVersions
          (emptyData\<lparr>pd_html := ''<p>2</p>''\<rparr>) [''a1.js''] []) = [''1'', ''2'']"
    by (simp add: evaluations_def versions_def techTwoVersions_def noTech_def emptyData_def
        urlHits_def entryHits_def htmlHits_def domHits_def matched_def demo_simps)
  have e: "evalTech demoRegExp techTwoVersions (emptyData\<lparr>pd_html := ''<p>2</p>''\<rparr>)
      [''a1.js''] [] = Inr (Fin 200, Some ''2'')"
    by (simp add: techTwoVersions_def noTech_def emptyData_def evalTech_def check_defs demo_simps)
  have p: "plainKeys techTwoVersions"
    by (simp add: plainKeys_def techTwoVersions_def noTech_def entries_def domEntries_def)
  have t: "evalTech demoRegExp techInheritedKey emptyData [] [] = Inl matchError"
    by (simp add: techInheritedKey_def noTech_def emptyData_def evalTech_def check_defs
        metaStep_def toLowerCase_def lowerChar_def demo_simps)
  from version_is_last_found [of demoRegExp techTwoVersions
      "emptyData\<lparr>pd_html := ''<p>2</p>''\<rparr>" "[''a1.js'']" "[]" "(Fin 200, Some ''2'')"]
    version_is_last_found [of demoRegExp techInheritedKey emptyData "[]" "[]" _ matchError]
    v e p t
  show ?thesis by simp
qed

text \<open>
  C1 as stated fails: the first version produced is 1, the version kept is 2.
\<close>

theorem first_version_counterexample:
  "versions (evaluations demoRegExp techTwoVersions
      (emptyData\<lparr>pd_html := ''<p>2</p>''\<rparr>) [''a1.js''] []) = [''1'', ''2''] \<and>
   evalTech demoRegExp techTwoVersions (emptyData\<lparr>pd_html := ''<p>2</p>''\<rparr>) [''a1.js''] []
     = Inr (Fin 200, Some ''2'')"
  by (simp add: evaluations_def versions_def techTwoVersions_def noTech_def emptyData_def
      urlHits_def entryHits_def htmlHits_def domHits_def matched_def evalTech_def check_defs
      demo_simps)

subsection \<open>Merging into the result map\<close>

text \<open>
  C8 (as amended). For every existing record and every new (confidence, version) pair,
  \<open>addDetection\<close> stores the maximum of the existing and the new confidence, clamped to
  at most 100; the stored version is the new version when that is non-empty, and
  otherwise the existing version (none when that is empty too). So a non-empty new
  version replaces a version already stored.
\<close>

theorem addDetection_merge:
  assumes "map_of det techName = Some e"
  shows "\<exists>d. map_of (addDetection cs det techName tech conf ver) techName = Some d \<and>
           d_confidence d = jmin (jmax (d_confidence e) conf) (Fin 100) \<and>
           (d_confidence e = Fin a \<and> conf = Fin b \<longrightarrow>
              d_confidence d = Fin (min (max a b) 100)) \<and>
           d_version d = (if truthy ver then ver else orNull (d_version e))"
  using assms by (auto simp: addDetection_def map_of_mapSet)

theorem addDetection_merge_witness:
  "map_of [(''A'', mkDetection ''A'' 60 (Some ''1'') [])] ''A''
     = Some (mkDetection ''A'' 60 (Some ''1'') []) \<and>
   (\<exists>d. map_of (addDetection noCategories [(''A'', mkDetection ''A'' 60 (Some ''1'') [])]
               ''A'' noTech (Fin 70) None) ''A'' = Some d \<and>
        d_confidence d = Fin 70 \<and> d_version d = Some ''1'')"
proof -
  have h: "map_of [(''A'', mkDetection ''A'' 60 (Some ''1'') [])] ''A''
      = Some (mkDetection ''A'' 60 (Some ''1'') [])"
    by simp
  from addDetection_merge [OF h, where cs = noCategories and tech = noTech and conf = "Fin 70"
      and ver = None and a = 60 and b = 70]
  show ?thesis by (auto simp: mkDetection_def orNull_def)
qed

text \<open>
  C8 as stated fails: the record holds version 1, the merge brings version 2, and the
  stored version becomes 2.
\<close>

theorem addDetection_version_counterexample:
  "d_version (mkDetection ''A'' 60 (Some ''1'') []) = Some ''1'' \<and>
   map_option d_version
     (map_of (addDetection noCategories [(''A'', mkDetection ''A'' 60 (Some ''1'') [])]
        ''A'' noTech (Fin 70) (Some ''2'')) ''A'') = Some (Some ''2'')"
  by (simp add: addDetection_def mkDetection_def)

subsection \<open>Empty values\<close>

text \<open>
  C10. For every pattern list and every regular-expression engine, testing against the
  empty string yields no match, also when a compiled pattern would match the empty
  string; so an empty HTML blob, an empty meta value and an empty header value leave
  the confidence and the version of the technology as they were.
\<close>

theorem empty_value_never_matches:
  "testPatterns rx pats (VStr []) = Inr None \<and>
   (pd_html pd = [] \<longrightarrow> checkHtml rx tech pd st = Inr st) \<and>
   (pd_meta pd (toLowerCase (fst e)) = Some [] \<longrightarrow> metaStep rx pd e st = Inr st) \<and>
   (pd_headers pd (toLowerCase (fst e)) = Some [] \<longrightarrow> headerStep rx pd e st = Inr st)"
  by (simp add: testPatterns_def checkHtml_def metaStep_def headerStep_def getValue_def
      split: option.splits)

text \<open>
  The empty pattern body of the example engine matches the empty string, and the HTML
  rule \<open>\;confidence:50\<close> has that body; on an empty HTML blob it adds nothing.
\<close>

theorem empty_value_never_matches_witness:
  "(\<exists>r. demoRegExp [] = Some r \<and> r [] \<noteq> None) \<and>
   testPatterns demoRegExp (PStr (sep @ ''confidence:50'')) (VStr []) = Inr None \<and>
   pd_html emptyData = [] \<and>
   checkHtml demoRegExp (noTech\<lparr>t_html := Some (PStr (sep @ ''confidence:50''))\<rparr>) emptyData
     (Fin 0, None) = Inr (Fin 0, None) \<and>
   toLowerCase ''Generator'' = ''generator'' \<and>
   metaStep demoRegExp (emptyData\<lparr>pd_meta := [''generator'' \<mapsto> []]\<rparr>)
     (''Generator'', PStr ''1'') (Fin 0, None) = Inr (Fin 0, None) \<and>
   headerStep demoRegExp (emptyData\<lparr>pd_headers := [''server'' \<mapsto> []]\<rparr>)
     (''server'', PStr ''1'') (Fin 0, None) = Inr (Fin 0, None)"
proof -
  have l: "toLowerCase ''Generator'' = ''generator''" "toLowerCase ''server'' = ''server''"
    by (simp_all add: toLowerCase_def lowerChar_def)
  have "pd_html emptyData = []"
    by (simp add: emptyData_def)
  moreover have "pd_meta (emptyData\<lparr>pd_meta := [''generator'' \<mapsto> []]\<rparr>)
      (toLowerCase (fst (''Generator'', PStr ''1''))) = Some []"
    by (simp add: l)
  moreover have "pd_headers (emptyData\<lparr>pd_headers := [''server'' \<mapsto> []]\<rparr>)
      (toLowerCase (fst (''server'', PStr ''1''))) = Some []"
    by (simp add: l)
  moreover have "\<exists>r. demoRegExp [] = Some r \<and> r [] \<noteq> None"
    by (simp add: demoRegExp_def)
  moreover note l(1)
    empty_value_never_matches [of demoRegExp "PStr (sep @ ''confidence:50'')" emptyData
      "noTech\<lparr>t_html := Some (PStr (sep @ ''confidence:50''))\<rparr>" "(Fin 0, None)"]
    empty_value_never_matches [of demoRegExp "PStr ''1''"
      "emptyData\<lparr>pd_meta := [''generator'' \<mapsto> []]\<rparr>" noTech "(Fin 0, None)"
      "(''Generator'', PStr ''1'')"]
    empty_value_never_matches [of demoRegExp "PStr ''1''"
      "emptyData\<lparr>pd_headers := [''server'' \<mapsto> []]\<rparr>" noTech "(Fin 0, None)"
      "(''server'', PStr ''1'')"]
  ultimately show ?thesis by blast
qed

subsection \<open>Presence rules\<close>

lemmas run_simps =
  detectTechnologies_def detectTry_def collectPageData_def collectCatch_def blankPage_def
  detectAll_def detectStep_def evalTech_def check_defs noTech_def emptyData_def
  toLowerCase_def lowerChar_def addDetection_def orNull_def impliesClosure_def visit_def
  lookupTech_def inheritedTech_def
  finalize_def detectedArray_def sortBy_def aboveFloor_def isCms_def mkDetection_def
  emptyResult_def

text \<open>
  What a rule with the empty pattern adds, branch by branch: the \<open>js\<close> and \<open>cookies\<close>
  branches add 100 as soon as the key is there; the \<open>meta\<close> and \<open>headers\<close> branches add
  100 only when the value found under the key is not the empty string.
\<close>

lemma presence_steps:
  assumes "snd e = PStr []"
  shows "metaStep rx pd e st =
           (case getValue (pd_meta pd) (toLowerCase (fst e)) of
              None \<Rightarrow> Inr st
            | Some v \<Rightarrow> Inr (if truthyValue v then addPresence st else st))"
    and "headerStep rx pd e st =
           (case getValue (pd_headers pd) (toLowerCase (fst e)) of
              None \<Rightarrow> Inr st
            | Some v \<Rightarrow> Inr (if truthyValue v then addPresence st else st))"
    and "jsStep rx pd e st =
           (case globalString pd (fst e) of None \<Rightarrow> Inr st | Some v \<Rightarrow> Inr (addPresence st))"
    and "cookieStep rx pd e st =
           (case find (\<lambda>c. toLowerCase (ck_name c) = toLowerCase (fst e)) (pd_cookies pd) of
              None \<Rightarrow> Inr st
            | Some c \<Rightarrow> Inr (addPresence st))"
  using assms
  by (simp_all add: metaStep_def headerStep_def jsStep_def cookieStep_def testPatterns_def
      split: option.splits)

text \<open>
  C2, the code at the failing input. The rule is \<open>headers: {"x-shopify-stage": ""}\<close>.
  A snapshot that holds this header with the empty value gives confidence 0 and the
  technology is absent from the result, where C2 promises 100; with a non-empty value
  the same rule gives 100. A meta rule with the empty pattern does the same on an empty
  meta value. The sibling branches do what C2 says: a \<open>js\<close> rule with the empty pattern
  gives 100 on a global whose value is the empty string, and a \<open>cookies\<close> rule gives 100
  on a cookie whose value is the empty string.
\<close>

theorem presence_rule_on_empty_value:
  "evalTech rx shopify (emptyData\<lparr>pd_headers := [''x-shopify-stage'' \<mapsto> []]\<rparr>) [] []
     = Inr (Fin 0, None) \<and>
   detectTechnologies rx [(''Shopify'', shopify)] noCategories
     (blankPage\<lparr>pg_headers := Inr [''x-shopify-stage'' \<mapsto> []]\<rparr>) [] [] = Inr emptyResult \<and>
   evalTech rx shopify (emptyData\<lparr>pd_headers := [''x-shopify-stage'' \<mapsto> ''1'']\<rparr>) [] []
     = Inr (Fin 100, None) \<and>
   evalTech rx (noTech\<lparr>t_meta := Some [(''generator'', PStr [])]\<rparr>)
     (emptyData\<lparr>pd_meta := [''generator'' \<mapsto> []]\<rparr>) [] [] = Inr (Fin 0, None) \<and>
   evalTech rx (noTech\<lparr>t_js := Some [(''Shopify'', PStr [])]\<rparr>)
     (emptyData\<lparr>pd_jsGlobals := [''Shopify'' \<mapsto> JString []]\<rparr>) [] [] = Inr (Fin 100, None) \<and>
   evalTech rx (noTech\<lparr>t_cookies := Some [(''sid'', PStr [])]\<rparr>)
     (emptyData\<lparr>pd_cookies := [\<lparr>ck_name = ''sid'', ck_value = []\<rparr>]\<rparr>) [] []
     = Inr (Fin 100, None)"
  by (simp add: run_simps shopify_def headerStep_def metaStep_def jsStep_def cookieStep_def
      testPatterns_def impliesLoop.simps [of _ _ "[]"] impliesPass.simps [of _ _ 0])

subsection \<open>Inherited members\<close>

text \<open>
  What the lookups in plain objects do under the name of an inherited member, on a
  snapshot that holds nothing. A header or meta rule \<open>constructor\<close> with the empty
  pattern adds 100, and with a pattern that compiles it throws the \<open>TypeError\<close> of
  \<open>value.match\<close>; the key is lower-cased first, so \<open>toString\<close> finds nothing there. A
  \<open>js\<close> rule \<open>toString\<close> with the empty pattern adds 100, and with a pattern it is
  tested against the source text of the function. A DOM rule finds no \<open>exists\<close> on the
  inherited member and adds nothing.
\<close>

lemma inherited_member_lookups:
  "evalTech rx (noTech\<lparr>t_headers := Some [(''constructor'', PStr [])]\<rparr>) emptyData [] []
     = Inr (Fin 100, None) \<and>
   evalTech rx (noTech\<lparr>t_meta := Some [(''constructor'', PStr [])]\<rparr>) emptyData [] []
     = Inr (Fin 100, None) \<and>
   evalTech demoRegExp (noTech\<lparr>t_headers := Some [(''constructor'', PStr ''1'')]\<rparr>)
     emptyData [] [] = Inl matchError \<and>
   evalTech demoRegExp (noTech\<lparr>t_meta := Some [(''constructor'', PStr ''1'')]\<rparr>)
     emptyData [] [] = Inl matchError \<and>
   evalTech rx (noTech\<lparr>t_headers := Some [(''toString'', PStr [])]\<rparr>) emptyData [] []
     = Inr (Fin 0, None) \<and>
   evalTech rx (noTech\<lparr>t_js := Some [(''toString'', PStr [])]\<rparr>) emptyData [] []
     = Inr (Fin 100, None) \<and>
   globalString emptyData ''toString'' = Some ''function toString() { [native code] }'' \<and>
   evalTech rx (noTech\<lparr>t_dom := Some (DomStr ''constructor'')\<rparr>) emptyData [] []
     = Inr (Fin 0, None)"
  by (simp add: evalTech_def check_defs noTech_def emptyData_def headerStep_def metaStep_def
      jsStep_def domStep_def inheritedString_def toLowerCase_def lowerChar_def testPatterns_def
      demo_simps)

subsection \<open>Errors\<close>

lemma collectPageData_Inl: "collectPageData pg = Inl err \<Longrightarrow> err = messageError"
  by (auto simp: collectPageData_def collectCatch_def split: sum.splits thrown.splits)

lemma foldE_Inl:
  assumes "\<And>x s err. f x s = Inl err \<Longrightarrow> P err"
  shows "foldE f xs s = Inl err \<Longrightarrow> P err"
  by (induction xs arbitrary: s) (auto split: sum.splits dest: assms)

lemma detectStep_Inl:
  "detectStep rx cs pd scriptUrls xhrUrls e det = Inl err \<Longrightarrow> err = matchError"
  by (auto simp: detectStep_def split: sum.splits dest: evalTech_Inl)

lemma detectAll_Inl:
  "detectAll rx techs cs pd scriptUrls xhrUrls = Inl err \<Longrightarrow> err = matchError"
  unfolding detectAll_def
  by (rule foldE_Inl [where P = "\<lambda>err. err = matchError"]) (rule detectStep_Inl)

lemma detectTry_Inl:
  "detectTry rx techs cs pg scriptUrls xhrUrls = Inl err \<Longrightarrow>
   err = messageError \<or> err = matchError"
  by (auto simp: detectTry_def split: sum.splits dest: collectPageData_Inl detectAll_Inl)

text \<open>
  C9 (as amended). \<open>detectTechnologies\<close> never propagates an exception. An error that
  reaches its \<open>catch\<close> yields exactly the empty result, whatever its message: this is so
  for the \<open>TypeError\<close> of \<open>value.match\<close> raised while the technologies are evaluated, and
  for an error that leaves \<open>collectPageData\<close>. An error object thrown during page-data
  collection does not reach that \<open>catch\<close>: whichever of the six reads throws it,
  \<open>collectPageData\<close> catches it and returns the data of the reads before it, with the
  empty defaults for the rest, and detection runs on that data, so the result need not
  be empty. Only when a read throws \<open>null\<close> or \<open>undefined\<close> does the handler of
  \<open>collectPageData\<close> throw itself, and the result is empty.
\<close>

theorem detectTechnologies_never_throws:
  "(\<exists>r. detectTechnologies rx techs cs pg scriptUrls xhrUrls = Inr r) \<and>
   (detectTry rx techs cs pg scriptUrls xhrUrls = Inl err \<longrightarrow>
      detectTechnologies rx techs cs pg scriptUrls xhrUrls = Inr emptyResult) \<and>
   detectCatch (ThrownError msg) = Inr emptyResult \<and>
   (collectPageData pg = Inr pd \<and> detectAll rx techs cs pd scriptUrls xhrUrls = Inr det \<longrightarrow>
      detectTechnologies rx techs cs pg scriptUrls xhrUrls =
        Inr (finalize (impliesClosure cs techs det))) \<and>
   (collectPageData pg = Inr pd \<and> detectAll rx techs cs pd scriptUrls xhrUrls = Inl err \<longrightarrow>
      detectTechnologies rx techs cs pg scriptUrls xhrUrls = Inr emptyResult) \<and>
   (collectPageData pg = Inl err \<longrightarrow>
      detectTechnologies rx techs cs pg scriptUrls xhrUrls = Inr emptyResult) \<and>
   (pg_headers pg = Inl (ThrownError m) \<longrightarrow> collectPageData pg = Inr emptyData) \<and>
   (pg_headers pg = Inr h \<and> pg_cookies pg = Inl (ThrownError m) \<longrightarrow>
      collectPageData pg = Inr (emptyData\<lparr>pd_headers := h\<rparr>)) \<and>
   (pg_headers pg = Inr h \<and> pg_cookies pg = Inr c \<and> pg_html pg = Inl (ThrownError m) \<longrightarrow>
      collectPageData pg = Inr (emptyData\<lparr>pd_headers := h, pd_cookies := c\<rparr>)) \<and>
   (pg_headers pg = Inr h \<and> pg_cookies pg = Inr c \<and> pg_html pg = Inr t \<and>
    pg_meta pg = Inl (ThrownError m) \<longrightarrow>
      collectPageData pg = Inr (emptyData\<lparr>pd_headers := h, pd_cookies := c, pd_html := t\<rparr>)) \<and>
   (pg_headers pg = Inr h \<and> pg_cookies pg = Inr c \<and> pg_html pg = Inr t \<and>
    pg_meta pg = Inr mt \<and> pg_jsGlobals pg = Inl (ThrownError m) \<longrightarrow>
      collectPageData pg =
        Inr (emptyData\<lparr>pd_headers := h, pd_cookies := c, pd_html := t, pd_meta := mt\<rparr>)) \<and>
   (pg_headers pg = Inr h \<and> pg_cookies pg = Inr c \<and> pg_html pg = Inr t \<and>
    pg_meta pg = Inr mt \<and> pg_jsGlobals pg = Inr j \<and> pg_domResults pg = Inl (ThrownError m) \<longrightarrow>
      collectPageData pg =
        Inr (emptyData\<lparr>pd_headers := h, pd_cookies := c, pd_html := t, pd_meta := mt,
               pd_jsGlobals := j\<rparr>)) \<and>
   (pg_headers pg = Inr h \<and> pg_cookies pg = Inr c \<and> pg_html pg = Inr t \<and>
    pg_meta pg = Inr mt \<and> pg_jsGlobals pg = Inr j \<and> pg_domResults pg = Inr dr \<longrightarrow>
      collectPageData pg =
        Inr (emptyData\<lparr>pd_headers := h, pd_cookies := c, pd_html := t, pd_meta := mt,
               pd_jsGlobals := j, pd_domResults := dr\<rparr>)) \<and>
   (pg_headers pg = Inl ThrownNullish \<longrightarrow> collectPageData pg = Inl messageError) \<and>
   (pg_headers pg = Inr h \<and> pg_cookies pg = Inl ThrownNullish \<longrightarrow>
      collectPageData pg = Inl messageError) \<and>
   (pg_headers pg = Inr h \<and> pg_cookies pg = Inr c \<and> pg_html pg = Inl ThrownNullish \<longrightarrow>
      collectPageData pg = Inl messageError) \<and>
   (pg_headers pg = Inr h \<and> pg_cookies pg = Inr c \<and> pg_html pg = Inr t \<and>
    pg_meta pg = Inl ThrownNullish \<longrightarrow> collectPageData pg = Inl messageError) \<and>
   (pg_headers pg = Inr h \<and> pg_cookies pg = Inr c \<and> pg_html pg = Inr t \<and>
    pg_meta pg = Inr mt \<and> pg_jsGlobals pg = Inl ThrownNullish \<longrightarrow>
      collectPageData pg = Inl messageError) \<and>
   (pg_headers pg = Inr h \<and> pg_cookies pg = Inr c \<and> pg_html pg = Inr t \<and>
    pg_meta pg = Inr mt \<and> pg_jsGlobals pg = Inr j \<and> pg_domResults pg = Inl ThrownNullish \<longrightarrow>
      collectPageData pg = Inl messageError)"
proof -
  have caught: "detectTry rx techs cs pg scriptUrls xhrUrls = Inl err' \<Longrightarrow>
      detectTechnologies rx techs cs pg scriptUrls xhrUrls = Inr emptyResult" for err'
    using detectTry_Inl [of rx techs cs pg scriptUrls xhrUrls err']
    by (auto simp: detectTechnologies_def detectCatch_def messageError_def matchError_def)
  have "\<exists>r. detectTechnologies rx techs cs pg scriptUrls xhrUrls = Inr r"
  proof (cases "detectTry rx techs cs pg scriptUrls xhrUrls")
    case (Inl err')
    then show ?thesis by (simp add: caught)
  next
    case (Inr r)
    then show ?thesis by (simp add: detectTechnologies_def)
  qed
  moreover have "detectTry rx techs cs pg scriptUrls xhrUrls = Inl err \<longrightarrow>
      detectTechnologies rx techs cs pg scriptUrls xhrUrls = Inr emptyResult"
    by (simp add: caught)
  moreover have "detectCatch (ThrownError msg) = Inr emptyResult"
    by (simp add: detectCatch_def)
  moreover have "collectPageData pg = Inr pd \<and>
      detectAll rx techs cs pd scriptUrls xhrUrls = Inr det \<longrightarrow>
      detectTechnologies rx techs cs pg scriptUrls xhrUrls =
        Inr (finalize (impliesClosure cs techs det))"
    by (simp add: detectTechnologies_def detectTry_def)
  moreover have "collectPageData pg = Inr pd \<and>
      detectAll rx techs cs pd scriptUrls xhrUrls = Inl err \<longrightarrow>
      detectTechnologies rx techs cs pg scriptUrls xhrUrls = Inr emptyResult"
    by (auto intro!: caught simp: detectTry_def)
  moreover have "collectPageData pg = Inl err \<longrightarrow>
      detectTechnologies rx techs cs pg scriptUrls xhrUrls = Inr emptyResult"
    by (auto intro!: caught simp: detectTry_def)
  ultimately show ?thesis
    by (simp add: collectPageData_def collectCatch_def)
qed

text \<open>
  A read that throws \<open>undefined\<close>, first or last, and the \<open>TypeError\<close> of \<open>value.match\<close>
  on a meta rule named \<open>constructor\<close> all end in the empty result; a read that throws an
  error object, first or fifth, leaves the data read before it, and detection runs on
  that data.
\<close>

theorem detectTechnologies_never_throws_witness:
  "detectTry demoRegExp [(''T'', techScript)] noCategories nullishPage [''a1.js''] []
     = Inl messageError \<and>
   detectTechnologies demoRegExp [(''T'', techScript)] noCategories nullishPage [''a1.js''] []
     = Inr emptyResult \<and>
   collectPageData lateNullishPage = Inl messageError \<and>
   detectTechnologies demoRegExp [(''T'', techScript)] noCategories lateNullishPage
     [''a1.js''] [] = Inr emptyResult \<and>
   detectAll demoRegExp throwingStore noCategories emptyData [''a1.js''] [] = Inl matchError \<and>
   detectTechnologies demoRegExp throwingStore noCategories blankPage [''a1.js''] []
     = Inr emptyResult \<and>
   detectCatch (ThrownError ''boom'') = Inr emptyResult \<and>
   collectPageData failingPage = Inr emptyData \<and>
   collectPageData lateFailingPage =
     Inr (emptyData\<lparr>pd_headers := [''server'' \<mapsto> ''1''], pd_cookies := [],
            pd_html := ''<p>2</p>'', pd_meta := Map.empty\<rparr>) \<and>
   detectAll demoRegExp [(''T'', techScript)] noCategories emptyData [''a1.js''] []
     = Inr [(''T'', mkDetection ''T'' 100 None [])] \<and>
   detectTechnologies demoRegExp [(''T'', techScript)] noCategories failingPage [''a1.js''] [] =
     Inr (finalize (impliesClosure noCategories [(''T'', techScript)]
       [(''T'', mkDetection ''T'' 100 None [])]))"
proof -
  have a: "detectTry demoRegExp [(''T'', techScript)] noCategories nullishPage [''a1.js''] []
      = Inl messageError"
    by (simp add: detectTry_def collectPageData_def collectCatch_def nullishPage_def blankPage_def)
  have b: "pg_headers failingPage = Inl (ThrownError ''boom'')"
    by (simp add: failingPage_def)
  have c: "pg_headers lateNullishPage = Inr Map.empty" "pg_cookies lateNullishPage = Inr []"
    "pg_html lateNullishPage = Inr []" "pg_meta lateNullishPage = Inr Map.empty"
    "pg_jsGlobals lateNullishPage = Inr Map.empty"
    "pg_domResults lateNullishPage = Inl ThrownNullish"
    by (simp_all add: lateNullishPage_def blankPage_def)
  have d: "pg_headers lateFailingPage = Inr [''server'' \<mapsto> ''1'']"
    "pg_cookies lateFailingPage = Inr []" "pg_html lateFailingPage = Inr ''<p>2</p>''"
    "pg_meta lateFailingPage = Inr Map.empty"
    "pg_jsGlobals lateFailingPage = Inl (ThrownError ''boom'')"
    by (simp_all add: lateFailingPage_def blankPage_def)
  have e: "collectPageData blankPage = Inr emptyData"
    by (simp add: collectPageData_def blankPage_def emptyData_def)
  have f: "detectAll demoRegExp throwingStore noCategories emptyData [''a1.js''] []
      = Inl matchError"
    by (simp add: throwingStore_def techScript_def techInheritedKey_def detectAll_def
        detectStep_def evalTech_def check_defs metaStep_def noTech_def emptyData_def
        toLowerCase_def lowerChar_def addDetection_def orNull_def demo_simps)
  have g: "detectAll demoRegExp [(''T'', techScript)] noCategories emptyData [''a1.js''] []
      = Inr [(''T'', mkDetection ''T'' 100 None [])]"
    by (simp add: techScript_def detectAll_def detectStep_def evalTech_def check_defs
        noTech_def emptyData_def addDetection_def orNull_def mkDetection_def demo_simps)
  note t = detectTechnologies_never_throws [where rx = demoRegExp and cs = noCategories
      and scriptUrls = "[''a1.js'']" and xhrUrls = "[]"]
  from a t [where techs = "[(''T'', techScript)]" and pg = nullishPage and err = messageError]
  have 1: "detectTechnologies demoRegExp [(''T'', techScript)] noCategories nullishPage
      [''a1.js''] [] = Inr emptyResult"
    by blast
  from c t [where techs = "[(''T'', techScript)]" and pg = lateNullishPage
      and h = Map.empty and c = "[]" and t = "[]" and mt = Map.empty and j = Map.empty]
  have 2: "collectPageData lateNullishPage = Inl messageError"
    by blast
  with t [where techs = "[(''T'', techScript)]" and pg = lateNullishPage and err = messageError]
  have 3: "detectTechnologies demoRegExp [(''T'', techScript)] noCategories lateNullishPage
      [''a1.js''] [] = Inr emptyResult"
    by blast
  from e f t [where techs = throwingStore and pg = blankPage and pd = emptyData
      and err = matchError]
  have 4: "detectTechnologies demoRegExp throwingStore noCategories blankPage [''a1.js''] []
      = Inr emptyResult"
    by blast
  from t [where techs = "[]" and pg = blankPage and msg = "''boom''"]
  have 5: "detectCatch (ThrownError ''boom'') = Inr emptyResult"
    by blast
  from b t [where techs = "[(''T'', techScript)]" and pg = failingPage and m = "''boom''"]
  have 6: "collectPageData failingPage = Inr emptyData"
    by blast
  from d t [where techs = "[(''T'', techScript)]" and pg = lateFailingPage and m = "''boom''"
      and h = "[''server'' \<mapsto> ''1'']" and c = "[]" and t = "''<p>2</p>''" and mt = Map.empty]
  have 7: "collectPageData lateFailingPage =
      Inr (emptyData\<lparr>pd_headers := [''server'' \<mapsto> ''1''], pd_cookies := [],
             pd_html := ''<p>2</p>'', pd_meta := Map.empty\<rparr>)"
    by blast
  from 6 g t [where techs = "[(''T'', techScript)]" and pg = failingPage and pd = emptyData
      and det = "[(''T'', mkDetection ''T'' 100 None [])]"]
  have 8: "detectTechnologies demoRegExp [(''T'', techScript)] noCategories failingPage
      [''a1.js''] [] =
      Inr (finalize (impliesClosure noCategories [(''T'', techScript)]
        [(''T'', mkDetection ''T'' 100 None [])]))"
    by blast
  from a 1 2 3 f 4 5 6 7 g 8 show ?thesis by simp
qed

text \<open>
  C9 as stated fails: the first read of page-data collection throws an error, and the
  result is not the empty result; the technology found through the script URL is in it.
\<close>

theorem collection_error_counterexample:
  "pg_headers failingPage = Inl (ThrownError ''boom'') \<and>
   detectTechnologies demoRegExp [(''T'', techScript)] noCategories failingPage [''a1.js''] [] =
     Inr \<lparr>cms = None, cmsDetails = None,
          detectedTechnologies = [mkDetection ''T'' 100 None []]\<rparr>"
  by (simp add: run_simps failingPage_def techScript_def demo_simps
      impliesLoop.simps [of _ _ "[_]"] impliesPass.simps [of _ _ 0]
      impliesPass.simps [of _ _ "Suc 0"])

subsection \<open>Ranking\<close>

lemma length_insertBy: "length (insertBy cmp x ys) = Suc (length ys)"
  by (induction ys) simp_all

lemma length_sortBy: "length (sortBy cmp xs) = length xs"
  by (induction xs) (simp_all add: sortBy_def length_insertBy)

lemma insertBy_insort:
  "isFin x \<Longrightarrow> \<forall>y\<in>set ys. isFin y \<Longrightarrow>
   insertBy byConfidence x ys = insort_key confKey x ys"
proof (induction ys)
  case Nil
  show ?case by simp
next
  case (Cons y ys)
  from Cons.prems obtain a b where "d_confidence x = Fin a" "d_confidence y = Fin b"
    by (cases "d_confidence x"; cases "d_confidence y") (auto simp: isFin_def)
  with Cons show ?case
    by (auto simp: byConfidence_def confKey_def)
qed

lemma sortBy_sort_key:
  "\<forall>y\<in>set xs. isFin y \<Longrightarrow> sortBy byConfidence xs = sort_key confKey xs"
proof (induction xs)
  case Nil
  show ?case by (simp add: sortBy_def)
next
  case (Cons x xs)
  then have "sortBy byConfidence xs = sort_key confKey xs" by simp
  moreover have "sortBy byConfidence (x # xs) = insertBy byConfidence x (sortBy byConfidence xs)"
    by (simp add: sortBy_def)
  ultimately show ?case
    using Cons.prems by (simp add: insertBy_insort)
qed

lemma aboveFloor_Fin: "aboveFloor d \<longleftrightarrow> (\<exists>c. d_confidence d = Fin c \<and> 50 \<le> c)"
  by (cases "d_confidence d") (simp_all add: aboveFloor_def)

lemma aboveFloor_isFin: "aboveFloor d \<Longrightarrow> isFin d"
  by (auto simp: aboveFloor_Fin isFin_def)

lemma detectedArray_sort_key:
  "detectedArray det = sort_key confKey (filter aboveFloor (map snd det))"
  unfolding detectedArray_def
  by (rule sortBy_sort_key) (auto intro: aboveFloor_isFin)

lemma set_detectedArray: "set (detectedArray det) = {d \<in> snd ` set det. aboveFloor d}"
  by (auto simp: detectedArray_sort_key)

lemma jge_confKey: "isFin a \<Longrightarrow> isFin b \<Longrightarrow> jge (d_confidence a) (d_confidence b) \<longleftrightarrow> confKey a \<le> confKey b"
  by (cases "d_confidence a"; cases "d_confidence b") (auto simp: isFin_def confKey_def)

lemma sorted_detectedArray:
  "sorted_wrt (\<lambda>a b. jge (d_confidence a) (d_confidence b)) (detectedArray det)"
proof -
  have "sorted (map confKey (detectedArray det))"
    by (simp add: detectedArray_sort_key)
  then have "sorted_wrt (\<lambda>a b. confKey a \<le> confKey b) (detectedArray det)"
    by (simp add: sorted_map)
  then show ?thesis
    by (rule sorted_wrt_mono_rel [rotated])
      (auto simp: set_detectedArray jge_confKey dest!: aboveFloor_isFin)
qed

lemma stable_detectedArray:
  "filter (\<lambda>d. d_confidence d = c) (detectedArray det) =
   filter (\<lambda>d. d_confidence d = c) (filter aboveFloor (map snd det))"
proof (cases c)
  case NaN
  have "filter (\<lambda>d. d_confidence d = NaN) (detectedArray det) = []"
    by (auto simp: filter_empty_conv set_detectedArray aboveFloor_Fin)
  moreover have "filter (\<lambda>d. d_confidence d = NaN) (filter aboveFloor (map snd det)) = []"
    by (auto simp: filter_empty_conv aboveFloor_Fin)
  ultimately show ?thesis using NaN by simp
next
  case (Fin k)
  have eq: "\<And>xs. \<forall>d\<in>set xs. isFin d \<Longrightarrow>
      filter (\<lambda>d. d_confidence d = Fin k) xs = filter (\<lambda>d. confKey d = - k) xs"
  proof (rule filter_cong [OF refl])
    fix xs d assume "\<forall>d\<in>set xs. isFin d" "d \<in> set xs"
    then show "(d_confidence d = Fin k) = (confKey d = - k)"
      by (cases "d_confidence d") (auto simp: isFin_def confKey_def)
  qed
  have "filter (\<lambda>d. d_confidence d = Fin k) (detectedArray det)
      = filter (\<lambda>d. confKey d = - k) (detectedArray det)"
    by (rule eq) (auto simp: set_detectedArray dest: aboveFloor_isFin)
  also have "\<dots> = filter (\<lambda>d. confKey d = - k) (filter aboveFloor (map snd det))"
    by (simp only: detectedArray_sort_key sort_key_stable)
  also have "\<dots> = filter (\<lambda>d. d_confidence d = Fin k) (filter aboveFloor (map snd det))"
    by (rule eq [symmetric]) (auto dest: aboveFloor_isFin)
  finally show ?thesis using Fin by simp
qed

lemma mset_detectedArray:
  "mset (detectedArray det) = mset (filter aboveFloor (map snd det))"
  by (simp only: detectedArray_sort_key mset_sort)

lemmas finalize_simps =
  finalize_def detectedArray_def sortBy_def aboveFloor_def isCms_def byConfidence_def
  mkDetection_def orNull_def

text \<open>
  C6. For every detection map, the finalized list holds exactly the records of
  confidence at least 50, each as often as the map holds it; none of its records is
  below 50; it is never longer than the list obtained without the floor; it is sorted by
  descending confidence; and the records of any one confidence stand in the order in
  which the map holds them, which is the order of first detection.
\<close>

theorem ranking:
  "mset (detectedTechnologies (finalize det)) = mset (filter aboveFloor (map snd det)) \<and>
   (\<forall>d\<in>set (detectedTechnologies (finalize det)). jge (d_confidence d) (Fin 50)) \<and>
   length (detectedTechnologies (finalize det)) \<le> length (sortBy byConfidence (map snd det)) \<and>
   sorted_wrt (\<lambda>a b. jge (d_confidence a) (d_confidence b)) (detectedTechnologies (finalize det)) \<and>
   (\<forall>c. filter (\<lambda>d. d_confidence d = c) (detectedTechnologies (finalize det)) =
        filter (\<lambda>d. d_confidence d = c) (filter aboveFloor (map snd det)))"
proof -
  have f: "detectedTechnologies (finalize det) = detectedArray det"
    by (simp add: finalize_def Let_def)
  have "length (detectedArray det) \<le> length (sortBy byConfidence (map snd det))"
    by (simp add: detectedArray_def length_sortBy)
  moreover have "\<forall>d\<in>set (detectedArray det). jge (d_confidence d) (Fin 50)"
    by (simp add: set_detectedArray aboveFloor_def)
  ultimately show ?thesis
    unfolding f using mset_detectedArray sorted_detectedArray stable_detectedArray by blast
qed

theorem ranking_witness:
  "detectedTechnologies (finalize rankingExample) =
     [mkDetection ''c'' 90 None [], mkDetection ''a'' 60 None [], mkDetection ''d'' 60 None []] \<and>
   mset (detectedTechnologies (finalize rankingExample)) =
     mset (filter aboveFloor (map snd rankingExample)) \<and>
   length (detectedTechnologies (finalize rankingExample)) = 3 \<and>
   length (sortBy byConfidence (map snd rankingExample)) = 4 \<and>
   sorted_wrt (\<lambda>a b. jge (d_confidence a) (d_confidence b))
     (detectedTechnologies (finalize rankingExample)) \<and>
   filter (\<lambda>d. d_confidence d = Fin 60) (detectedTechnologies (finalize rankingExample)) =
     [mkDetection ''a'' 60 None [], mkDetection ''d'' 60 None []]"
proof -
  have e: "detectedTechnologies (finalize rankingExample) =
      [mkDetection ''c'' 90 None [], mkDetection ''a'' 60 None [], mkDetection ''d'' 60 None []]"
    by (simp add: rankingExample_def finalize_simps)
  have f: "filter (\<lambda>d. d_confidence d = Fin 60) (filter aboveFloor (map snd rankingExample)) =
      [mkDetection ''a'' 60 None [], mkDetection ''d'' 60 None []]"
    by (simp add: rankingExample_def finalize_simps)
  have l: "length (sortBy byConfidence (map snd rankingExample)) = 4"
    by (simp add: rankingExample_def length_sortBy)
  from ranking [of rankingExample]
  have "mset (detectedTechnologies (finalize rankingExample)) =
      mset (filter aboveFloor (map snd rankingExample))"
    and "sorted_wrt (\<lambda>a b. jge (d_confidence a) (d_confidence b))
      (detectedTechnologies (finalize rankingExample))"
    and "filter (\<lambda>d. d_confidence d = Fin 60) (detectedTechnologies (finalize rankingExample)) =
      filter (\<lambda>d. d_confidence d = Fin 60) (filter aboveFloor (map snd rankingExample))"
    by blast+
  with e f l show ?thesis by simp
qed

subsection \<open>CMS selection\<close>

lemma find_split:
  "find P xs = Some x \<Longrightarrow> \<exists>pre post. xs = pre @ x # post \<and> P x \<and> (\<forall>y\<in>set pre. \<not> P y)"
proof (induction xs)
  case Nil
  then show ?case by simp
next
  case (Cons a xs)
  show ?case
  proof (cases "P a")
    case True
    with Cons.prems have "a = x" by simp
    with True show ?thesis by (intro exI [of _ "[]"] exI [of _ xs]) auto
  next
    case False
    with Cons obtain pre post where "xs = pre @ x # post" "P x" "\<forall>y\<in>set pre. \<not> P y"
      by auto
    with False show ?thesis by (intro exI [of _ "a # pre"] exI [of _ post]) auto
  qed
qed

lemma find_None_list_ex: "find P xs = None \<longleftrightarrow> \<not> list_ex P xs"
  by (auto simp: find_None_iff list_ex_iff)

lemma jge_refl_aboveFloor: "aboveFloor d \<Longrightarrow> jge (d_confidence d) (d_confidence d)"
  by (auto simp: aboveFloor_Fin)

text \<open>
  What the selection does on every finalized list: if no record carries category id 1,
  \<open>cms\<close> and \<open>cmsDetails\<close> are null. Otherwise \<open>cmsDetails\<close> is a record of the list that
  carries category id 1 and whose confidence is the highest among the records that do;
  among the records of category 1 with that confidence it is the one detected first; and
  \<open>cms\<close> is its name when the name is not the empty string, and null when it is.
\<close>

lemma cms_selection:
  "(\<not> list_ex isCms (detectedTechnologies (finalize det)) \<longrightarrow>
      cms (finalize det) = None \<and> cmsDetails (finalize det) = None) \<and>
   (list_ex isCms (detectedTechnologies (finalize det)) \<longrightarrow>
      (\<exists>d. cmsDetails (finalize det) = Some d \<and>
           d \<in> set (detectedTechnologies (finalize det)) \<and> isCms d \<and>
           (\<forall>e\<in>set (detectedTechnologies (finalize det)).
              isCms e \<longrightarrow> jge (d_confidence d) (d_confidence e)) \<and>
           (\<exists>rest. filter (\<lambda>e. isCms e \<and> d_confidence e = d_confidence d)
                     (filter aboveFloor (map snd det)) = d # rest) \<and>
           cms (finalize det) = (if d_name d = [] then None else Some (d_name d))))"
proof (cases "find isCms (detectedArray det)")
  case None
  then have "\<not> list_ex isCms (detectedArray det)"
    by (simp add: find_None_list_ex)
  moreover from None have "cms (finalize det) = None" "cmsDetails (finalize det) = None"
    "detectedTechnologies (finalize det) = detectedArray det"
    by (simp_all add: finalize_def Let_def)
  ultimately show ?thesis by simp
next
  case (Some d)
  from find_split [OF Some] obtain pre post where
    arr: "detectedArray det = pre @ d # post" and d: "isCms d" and pre: "\<forall>y\<in>set pre. \<not> isCms y"
    by blast
  have dset: "d \<in> set (detectedArray det)" by (simp add: arr)
  then have fl: "aboveFloor d" by (simp add: set_detectedArray)
  have "sorted_wrt (\<lambda>a b. jge (d_confidence a) (d_confidence b)) (pre @ d # post)"
    using sorted_detectedArray [of det] by (simp add: arr)
  then have post: "\<forall>e\<in>set post. jge (d_confidence d) (d_confidence e)"
    by (simp add: sorted_wrt_append)
  have best: "\<forall>e\<in>set (detectedArray det). isCms e \<longrightarrow> jge (d_confidence d) (d_confidence e)"
    using pre post jge_refl_aboveFloor [OF fl] by (auto simp: arr)
  have "filter (\<lambda>e. isCms e \<and> d_confidence e = d_confidence d) (filter aboveFloor (map snd det))
      = filter isCms (filter (\<lambda>e. d_confidence e = d_confidence d) (filter aboveFloor (map snd det)))"
    by (auto intro!: filter_cong)
  also have "\<dots> = filter isCms (filter (\<lambda>e. d_confidence e = d_confidence d) (detectedArray det))"
    by (simp only: stable_detectedArray)
  also have "\<dots> = filter (\<lambda>e. isCms e \<and> d_confidence e = d_confidence d) (pre @ d # post)"
    by (simp add: arr conj_commute)
  also have "\<dots> = d # filter (\<lambda>e. isCms e \<and> d_confidence e = d_confidence d) post"
    using pre d by (simp add: filter_empty_conv)
  finally have first: "\<exists>rest. filter (\<lambda>e. isCms e \<and> d_confidence e = d_confidence d)
      (filter aboveFloor (map snd det)) = d # rest"
    by blast
  have ex: "list_ex isCms (detectedArray det)"
    using dset d by (auto simp: list_ex_iff)
  have r: "cmsDetails (finalize det) = Some d"
    "cms (finalize det) = (if d_name d = [] then None else Some (d_name d))"
    "detectedTechnologies (finalize det) = detectedArray det"
    using Some by (simp_all add: finalize_def Let_def orNull_def)
  show ?thesis
    unfolding r using ex dset d best first by blast
qed

lemma cms_selection_example:
  "list_ex isCms (detectedTechnologies (finalize cmsExample)) \<and>
   cmsDetails (finalize cmsExample) = Some (mkDetection ''w'' 80 None [1]) \<and>
   cms (finalize cmsExample) = Some ''w'' \<and>
   \<not> list_ex isCms (detectedTechnologies (finalize rankingExample)) \<and>
   cms (finalize rankingExample) = None \<and> cmsDetails (finalize rankingExample) = None"
proof -
  have ex: "list_ex isCms (detectedTechnologies (finalize cmsExample))"
    by (simp add: cmsExample_def finalize_simps)
  have cd: "cmsDetails (finalize cmsExample) = Some (mkDetection ''w'' 80 None [1])"
    by (simp add: cmsExample_def finalize_simps)
  from cms_selection [of cmsExample] ex obtain d where
    "cmsDetails (finalize cmsExample) = Some d"
    "cms (finalize cmsExample) = (if d_name d = [] then None else Some (d_name d))"
    by blast
  with cd have c: "cms (finalize cmsExample) = Some ''w''"
    by (simp add: mkDetection_def)
  have nex: "\<not> list_ex isCms (detectedTechnologies (finalize rankingExample))"
    by (simp add: rankingExample_def finalize_simps)
  with cms_selection [of rankingExample]
  have "cms (finalize rankingExample) = None \<and> cmsDetails (finalize rankingExample) = None"
    by blast
  with ex cd c nex show ?thesis by simp
qed

text \<open>
  C7, the code at the failing input. The database holds one technology, named by the
  empty string and of category 1, and the script URL satisfies its rule. It is the only
  record of the result and \<open>cmsDetails\<close> is that record, but \<open>cms\<close> is null, where C7 says
  it is the name of the record: \<open>cms?.name || null\<close> takes the empty name for a missing
  one. The same rule under the name W gives \<open>cms\<close> = W.
\<close>

theorem cms_of_empty_name:
  "isCms (mkDetection [] 100 None [1]) \<and>
   d_name (mkDetection [] 100 None [1]) = [] \<and>
   detectTechnologies demoRegExp emptyNameStore noCategories blankPage [''a1.js''] [] =
     Inr \<lparr>cms = None, cmsDetails = Some (mkDetection [] 100 None [1]),
          detectedTechnologies = [mkDetection [] 100 None [1]]\<rparr> \<and>
   detectTechnologies demoRegExp [(''W'', techScript\<lparr>t_cats := Some [1]\<rparr>)] noCategories
     blankPage [''a1.js''] [] =
     Inr \<lparr>cms = Some ''W'', cmsDetails = Some (mkDetection ''W'' 100 None [1]),
          detectedTechnologies = [mkDetection ''W'' 100 None [1]]\<rparr>"
  by (simp add: run_simps emptyNameStore_def techScript_def categoryName_def noCategories_def
      demo_simps impliesLoop.simps [of _ _ "[_]"] impliesPass.simps [of _ _ 0]
      impliesPass.simps [of _ _ "Suc 0"])

subsection \<open>Invariants of the result map\<close>

lemma impliedStep_inv:
  assumes "\<And>det k tech conf ver. I det \<Longrightarrow> I (addDetection cs det k tech conf ver)"
    and "I (fst st)"
  shows "I (fst (impliedStep cs techs i st))"
  using assms by (simp add: impliedStep_def split: prod.splits option.splits)

lemma fold_impliedStep_inv:
  assumes "\<And>det k tech conf ver. I det \<Longrightarrow> I (addDetection cs det k tech conf ver)"
    and "I (fst st)"
  shows "I (fst (fold (impliedStep cs techs) is st))"
  using assms(2)
  by (induction "is" arbitrary: st) (simp_all add: impliedStep_inv [where I = I, OF assms(1)])

lemma visit_inv:
  assumes "\<And>det k tech conf ver. I det \<Longrightarrow> I (addDetection cs det k tech conf ver)"
    and "I (fst st)"
  shows "I (fst (visit cs techs n st))"
  using assms(2)
  by (simp add: visit_def fold_impliedStep_inv [where I = I, OF assms(1)] split: option.splits)

lemma impliesPass_inv:
  assumes "\<And>det k tech conf ver. I det \<Longrightarrow> I (addDetection cs det k tech conf ver)"
    and "I (fst st)"
  shows "I (fst (impliesPass cs techs i st))"
  using assms
proof (induction cs techs i st rule: impliesPass.induct)
  case (1 cs techs i st)
  note add = "1.prems"(1)
  show ?case
  proof (cases "i < length (fst st)")
    case True
    have "I (fst (visit cs techs (fst (fst st ! i)) st))"
      by (rule visit_inv [where I = I, OF add "1.prems"(2)])
    from "1.IH" [OF True add this] True show ?thesis
      by (simp add: impliesPass.simps [of cs techs i st])
  next
    case False
    with "1.prems" show ?thesis by (simp add: impliesPass.simps [of cs techs i st])
  qed
qed

lemma impliesLoop_inv:
  assumes "\<And>det k tech conf ver. I det \<Longrightarrow> I (addDetection cs det k tech conf ver)"
    and "I det"
  shows "I (snd (impliesLoop cs techs det))"
  using assms
proof (induction cs techs det rule: impliesLoop.induct)
  case (1 cs techs det)
  note add = "1.prems"(1)
  obtain det' changed where p: "impliesPass cs techs 0 (det, False) = (det', changed)"
    by (cases "impliesPass cs techs 0 (det, False)")
  have "I (fst (det, False))"
    using "1.prems"(2) by simp
  have "I (fst (impliesPass cs techs 0 (det, False)))"
    using add \<open>I (fst (det, False))\<close> by (rule impliesPass_inv)
  with p have ok: "I det'" by simp
  show ?case
  proof (cases changed)
    case True
    from "1.IH" [OF p [symmetric] True add ok] p True show ?thesis
      by (auto simp: impliesLoop.simps [of cs techs det] split: prod.splits)
  next
    case False
    with p ok show ?thesis by (simp add: impliesLoop.simps [of cs techs det])
  qed
qed

lemma allOK_mapSet: "allOK det \<Longrightarrow> confOK v \<Longrightarrow> allOK (mapSet k v det)"
  by (induction det) (auto simp: allOK_def)

lemma confOK_jmin: "d_confidence d = jmin x (Fin 100) \<Longrightarrow> confOK d"
  by (cases x) (simp_all add: confOK_def)

lemma allOK_addDetection: "allOK det \<Longrightarrow> allOK (addDetection cs det k tech conf ver)"
  unfolding addDetection_def Let_def
  by (rule allOK_mapSet) (simp_all add: confOK_jmin)

lemma allOK_detectStep:
  "allOK det \<Longrightarrow> detectStep rx cs pd s x e det = Inr det' \<Longrightarrow> allOK det'"
  by (auto simp: detectStep_def allOK_addDetection split: sum.splits prod.splits if_splits)

lemma allOK_fold_detectStep:
  "allOK det \<Longrightarrow> foldE (detectStep rx cs pd s x) techs det = Inr det' \<Longrightarrow> allOK det'"
proof (induction techs arbitrary: det)
  case Nil
  then show ?case by simp
next
  case (Cons e techs)
  then obtain d1 where 1: "detectStep rx cs pd s x e det = Inr d1"
    and 2: "foldE (detectStep rx cs pd s x) techs d1 = Inr det'"
    by (auto split: sum.splits)
  from allOK_detectStep [OF Cons.prems(1) 1] have "allOK d1" .
  from Cons.IH [OF this 2] show ?case .
qed

lemma allOK_detectAll: "detectAll rx techs cs pd s x = Inr det \<Longrightarrow> allOK det"
  unfolding detectAll_def
  by (rule allOK_fold_detectStep [where det = "[]"]) (simp_all add: allOK_def)

lemma allOK_impliesClosure: "allOK det \<Longrightarrow> allOK (impliesClosure cs techs det)"
  unfolding impliesClosure_def
  by (rule impliesLoop_inv [where I = allOK]) (rule allOK_addDetection)

lemma keys_mapSet_list:
  "map fst (mapSet k v det) = (if k \<in> fst ` set det then map fst det else map fst det @ [k])"
  by (induction det) auto

lemma distinct_addDetection:
  "distinct (map fst det) \<Longrightarrow> distinct (map fst (addDetection cs det k tech conf ver))"
  by (simp add: addDetection_def Let_def keys_mapSet_list)

lemma distinct_impliesClosure:
  "distinct (map fst det) \<Longrightarrow> distinct (map fst (impliesClosure cs techs det))"
  unfolding impliesClosure_def
  by (rule impliesLoop_inv [where I = "\<lambda>d. distinct (map fst d)"]) (rule distinct_addDetection)

text \<open>
  C3. For every fingerprint store, every regular-expression engine and every outcome of
  the page reads, every record of the returned \<open>detectedTechnologies\<close> list has a
  confidence that is an integer between 0 and 100 (it is at least 50, by the filter, and
  at most 100, by the clamp of \<open>addDetection\<close>).
\<close>

theorem confidence_in_range:
  assumes "detectTechnologies rx techs cs pg scriptUrls xhrUrls = Inr r"
    and "d \<in> set (detectedTechnologies r)"
  shows "\<exists>c. d_confidence d = Fin c \<and> 0 \<le> c \<and> 50 \<le> c \<and> c \<le> 100"
proof (cases "detectTry rx techs cs pg scriptUrls xhrUrls")
  case (Inl err)
  with detectTry_Inl [OF Inl] assms show ?thesis
    by (auto simp: detectTechnologies_def detectCatch_def emptyResult_def messageError_def
        matchError_def)
next
  case (Inr r')
  then obtain pd det where det: "detectAll rx techs cs pd scriptUrls xhrUrls = Inr det"
    and r: "r = finalize (impliesClosure cs techs det)"
    using assms(1) by (auto simp: detectTechnologies_def detectTry_def split: sum.splits)
  let ?det = "impliesClosure cs techs det"
  have ok: "allOK ?det"
    by (intro allOK_impliesClosure allOK_detectAll [OF det])
  from assms(2) have "d \<in> snd ` set ?det" "aboveFloor d"
    by (auto simp: r finalize_def Let_def set_detectedArray)
  with ok have "confOK d" "aboveFloor d"
    by (auto simp: allOK_def list_all_iff)
  then show ?thesis
    by (auto simp: aboveFloor_Fin confOK_def)
qed

text \<open>
  The script URL and the HTML both match, the total is 200, and the record holds 100.
\<close>

theorem confidence_in_range_witness:
  "detectTechnologies demoRegExp [(''T'', techTwoVersions)] noCategories
     (blankPage\<lparr>pg_html := Inr ''<p>2</p>''\<rparr>) [''a1.js''] [] =
     Inr \<lparr>cms = None, cmsDetails = None,
          detectedTechnologies = [mkDetection ''T'' 100 (Some ''2'') []]\<rparr> \<and>
   (\<exists>c. d_confidence (mkDetection ''T'' 100 (Some ''2'') []) = Fin c \<and>
        0 \<le> c \<and> 50 \<le> c \<and> c \<le> 100)"
proof -
  have h: "detectTechnologies demoRegExp [(''T'', techTwoVersions)] noCategories
      (blankPage\<lparr>pg_html := Inr ''<p>2</p>''\<rparr>) [''a1.js''] [] =
      Inr \<lparr>cms = None, cmsDetails = None,
           detectedTechnologies = [mkDetection ''T'' 100 (Some ''2'') []]\<rparr>"
    by (simp add: run_simps techTwoVersions_def demo_simps byConfidence_def
        impliesLoop.simps [of _ _ "[_]"] impliesPass.simps [of _ _ 0]
        impliesPass.simps [of _ _ "Suc 0"])
  have m: "mkDetection ''T'' 100 (Some ''2'') [] \<in> set (detectedTechnologies
      \<lparr>cms = None, cmsDetails = None,
       detectedTechnologies = [mkDetection ''T'' 100 (Some ''2'') []]\<rparr>)"
    by simp
  from confidence_in_range [OF h m] h show ?thesis by simp
qed

subsection \<open>The closure: fixed point, passes, closedness\<close>

lemma impliedStep_missing:
  "impliedStep cs techs i st = st \<or>
   missing techs (fst (impliedStep cs techs i st)) < missing techs (fst st)"
  using impliedStep_cases [where K = "addable techs" and techs = techs and implied = i
      and cs = cs and st = st, OF finite_addable] lookupTech_addable [of techs]
  by (auto simp: missing_def)

lemma fold_impliedStep_missing:
  "fold (impliedStep cs techs) is st = st \<or>
   missing techs (fst (fold (impliedStep cs techs) is st)) < missing techs (fst st)"
  using fold_impliedStep_cases [where K = "addable techs" and techs = techs and ims = "is"
      and cs = cs and st = st, OF finite_addable] lookupTech_addable [of techs]
  by (auto simp: missing_def)

lemma visit_missing:
  "visit cs techs n st = st \<or>
   missing techs (fst (visit cs techs n st)) < missing techs (fst st)"
  using visit_cases [where K = "addable techs" and techs = techs and cs = cs and n = n
      and st = st, OF finite_addable allWithin_addable]
  by (auto simp: missing_def)

lemma impliesPass_missing:
  "(fst (impliesPass cs techs i st) = fst st \<and> snd (impliesPass cs techs i st) = snd st) \<or>
   (missing techs (fst (impliesPass cs techs i st)) < missing techs (fst st) \<and>
    snd (impliesPass cs techs i st))"
  using impliesPass_cases [where K = "addable techs" and techs = techs and cs = cs and i = i
      and st = st, OF finite_addable allWithin_addable]
  by (auto simp: missing_def)

lemma impliesLoop_fixed:
  "impliesPass cs techs 0 (impliesClosure cs techs det, False) = (impliesClosure cs techs det, False)"
proof (induction cs techs det rule: impliesLoop.induct)
  case (1 cs techs det)
  obtain det' changed where p: "impliesPass cs techs 0 (det, False) = (det', changed)"
    by (cases "impliesPass cs techs 0 (det, False)")
  show ?case
  proof (cases changed)
    case True
    from "1" [OF p [symmetric] True] p True show ?thesis
      by (auto simp: impliesClosure_def impliesLoop.simps [of cs techs det] split: prod.splits)
  next
    case False
    with impliesPass_missing [of cs techs 0 "(det, False)"] p have "det' = det" by auto
    with p False show ?thesis
      by (simp add: impliesClosure_def impliesLoop.simps [of cs techs det])
  qed
qed

lemma impliesLoop_of_fixed:
  "impliesPass cs techs 0 (det, False) = (det, False) \<Longrightarrow> impliesLoop cs techs det = (1, det)"
  by (simp add: impliesLoop.simps [of cs techs det])

lemma passes_le_card:
  assumes "finite K" and "allWithin techs K"
  shows "fst (impliesLoop cs techs det) \<le> Suc (card (K - fst ` set det))"
  using assms(2)
proof (induction cs techs det rule: impliesLoop.induct)
  case (1 cs techs det)
  obtain det' changed where p: "impliesPass cs techs 0 (det, False) = (det', changed)"
    by (cases "impliesPass cs techs 0 (det, False)")
  show ?case
  proof (cases changed)
    case True
    with impliesPass_cases [OF assms(1) "1.prems", of cs 0 "(det, False)"] p
    have "card (K - fst ` set det') < card (K - fst ` set det)" by auto
    with "1.IH" [OF p [symmetric] True "1.prems"] p True show ?thesis
      by (auto simp: impliesLoop.simps [of cs techs det] split: prod.splits)
  next
    case False
    with p show ?thesis by (simp add: impliesLoop.simps [of cs techs det])
  qed
qed

lemma passes_ge_1: "1 \<le> fst (impliesLoop cs techs det)"
  by (cases "impliesPass cs techs 0 (det, False)")
    (auto simp: impliesLoop.simps [of cs techs det] split: prod.splits)

lemma visit_unknown: "map_of techs n = None \<Longrightarrow> visit cs techs n st = st"
  by (simp add: visit_def lookupTech_def inheritedTech_def)

lemma impliesPass_disjoint:
  "fst ` set (fst st) \<inter> fst ` set techs = {} \<Longrightarrow> impliesPass cs techs i st = st"
proof (induction cs techs i st rule: impliesPass.induct)
  case (1 cs techs i st)
  show ?case
  proof (cases "i < length (fst st)")
    case True
    then have "fst (fst st ! i) \<in> fst ` set (fst st)" by simp
    with "1.prems" have "fst (fst st ! i) \<notin> fst ` set techs" by blast
    then have "map_of techs (fst (fst st ! i)) = None"
      by (simp add: map_of_eq_None_iff)
    then have v: "visit cs techs (fst (fst st ! i)) st = st" by (rule visit_unknown)
    from "1.IH" [OF True] "1.prems" True show ?thesis
      by (simp add: impliesPass.simps [of cs techs i st] v)
  next
    case False
    then show ?thesis by (simp add: impliesPass.simps [of cs techs i st])
  qed
qed

lemma storePlain_allWithin:
  assumes "storePlain techs"
  shows "allWithin techs (fst ` set techs)"
  unfolding allWithin_def
proof (intro allI impI ballI)
  fix n tech m
  assume l: "lookupTech techs n = Some tech" and m: "m \<in> set (impliedNames tech)"
    and f: "lookupTech techs m \<noteq> None"
  show "m \<in> fst ` set techs"
  proof (cases "map_of techs n")
    case None
    with l have "tech = inheritedTech"
      by (simp add: lookupTech_def split: if_splits)
    with m show ?thesis by (simp add: impliedNames_def inheritedTech_def)
  next
    case (Some t)
    with l have "map_of techs n = Some tech" by (simp add: lookupTech_def)
    then have "(n, tech) \<in> set techs" by (rule map_of_SomeD)
    with assms m have "m \<notin> set protoMembers \<or> map_of techs m \<noteq> None"
      by (auto simp: storePlain_def list_all_iff)
    moreover from f have "map_of techs m \<noteq> None \<or> m \<in> set protoMembers"
      by (auto simp: lookupTech_def split: option.splits if_splits)
    ultimately have "map_of techs m \<noteq> None" by blast
    then show ?thesis by (simp add: map_of_eq_None_iff)
  qed
qed

lemma passes_bound:
  assumes "storePlain techs"
  shows "passes cs techs det \<le> max 1 (length techs)"
proof (cases "fst ` set det \<inter> fst ` set techs = {}")
  case True
  then have "impliesPass cs techs 0 (det, False) = (det, False)"
    by (simp add: impliesPass_disjoint)
  then show ?thesis
    by (simp add: passes_def impliesLoop_of_fixed)
next
  case False
  then have "fst ` set techs - fst ` set det \<subset> fst ` set techs" by blast
  then have "card (fst ` set techs - fst ` set det) < card (fst ` set techs)"
    by (intro psubset_card_mono) auto
  also have "\<dots> \<le> length techs"
    by (metis card_image_le card_length le_trans List.finite_set)
  finally show ?thesis
    using passes_le_card [where K = "fst ` set techs" and techs = techs and cs = cs
        and det = det, OF _ storePlain_allWithin [OF assms]]
    by (simp add: passes_def)
qed

lemma impliedStep_fixed:
  assumes "impliedStep cs techs i st = st"
  shows "lookupTech techs (fst (parseImplied i)) = None \<or> mapHas (fst st) (fst (parseImplied i))"
proof (rule ccontr)
  assume n: "\<not> ?thesis"
  obtain m c where pc: "parseImplied i = (m, c)" by (cases "parseImplied i")
  from n pc obtain tech where t: "lookupTech techs m = Some tech" and h: "\<not> mapHas (fst st) m"
    by auto
  from assms pc t h have "fst st = addDetection cs (fst st) m tech c None"
    by (simp add: impliedStep_def) (metis fst_conv)
  then have "fst ` set (fst st) = insert m (fst ` set (fst st))"
    using keys_addDetection [of cs "fst st" m tech c None] by simp
  with h show False by (auto simp: mapHas_iff)
qed

lemma fold_impliedStep_fixed:
  "fold (impliedStep cs techs) is st = st \<Longrightarrow> \<forall>i\<in>set is. impliedStep cs techs i st = st"
proof (induction "is" arbitrary: st)
  case Nil
  show ?case by simp
next
  case (Cons i "is")
  let ?s = "impliedStep cs techs i st"
  from Cons.prems have f: "fold (impliedStep cs techs) is ?s = st" by simp
  have "?s = st"
  proof (rule ccontr)
    assume "?s \<noteq> st"
    with impliedStep_missing [of cs techs i st]
    have "missing techs (fst ?s) < missing techs (fst st)" by simp
    moreover from fold_impliedStep_missing [of cs techs "is" ?s] f
    have "missing techs (fst st) \<le> missing techs (fst ?s)" by auto
    ultimately show False by simp
  qed
  with Cons.IH [of st] f show ?case by simp
qed

lemma visit_fixed:
  assumes "visit cs techs n st = st" and "map_of techs n = Some tech"
  shows "list_all (\<lambda>m. map_of techs m = None \<or> mapHas (fst st) m) (impliedNames tech)"
proof (cases "t_implies tech")
  case None
  then show ?thesis by (simp add: impliedNames_def)
next
  case (Some imp)
  from assms(2) have l: "lookupTech techs n = Some tech" by (simp add: lookupTech_def)
  have k: "lookupTech techs m = None \<Longrightarrow> map_of techs m = None" for m
    by (simp add: lookupTech_def split: option.splits if_splits)
  show ?thesis
  proof (cases "truthyPatterns imp")
    case False
    with Some show ?thesis by (simp add: impliedNames_def)
  next
    case True
    with assms(1) l Some have "fold (impliedStep cs techs) (asArray imp) st = st"
      by (simp add: visit_def)
    from fold_impliedStep_fixed [OF this] Some True show ?thesis
      by (auto simp: impliedNames_def list_all_iff dest!: impliedStep_fixed dest: k)
  qed
qed

lemma impliesPass_fixed:
  "impliesPass cs techs i st = st \<Longrightarrow>
   \<forall>j. i \<le> j \<and> j < length (fst st) \<longrightarrow> visit cs techs (fst (fst st ! j)) st = st"
proof (induction cs techs i st rule: impliesPass.induct)
  case (1 cs techs i st)
  show ?case
  proof (cases "i < length (fst st)")
    case False
    then show ?thesis by auto
  next
    case True
    let ?s = "visit cs techs (fst (fst st ! i)) st"
    from "1.prems" True have f: "impliesPass cs techs (Suc i) ?s = st"
      by (simp add: impliesPass.simps [of cs techs i st])
    have s: "?s = st"
    proof (rule ccontr)
      assume "?s \<noteq> st"
      with visit_missing [of cs techs "fst (fst st ! i)" st]
      have "missing techs (fst ?s) < missing techs (fst st)" by simp
      moreover from impliesPass_missing [of cs techs "Suc i" ?s] f
      have "missing techs (fst st) \<le> missing techs (fst ?s)" by auto
      ultimately show False by simp
    qed
    from "1.IH" [OF True] f s
    have "\<forall>j. Suc i \<le> j \<and> j < length (fst st) \<longrightarrow> visit cs techs (fst (fst st ! j)) st = st"
      by simp
    with s show ?thesis
      by (metis Suc_leI le_neq_implies_less)
  qed
qed

lemma closed_fixed:
  assumes "impliesPass cs techs 0 (det, False) = (det, False)"
  shows "closed techs det"
  unfolding closed_def list_all_iff
proof
  fix p assume "p \<in> set det"
  then obtain j where j: "j < length det" "det ! j = p" by (auto simp: in_set_conv_nth)
  with impliesPass_fixed [OF assms] have v: "visit cs techs (fst p) (det, False) = (det, False)"
    by auto
  show "case map_of techs (fst p) of None \<Rightarrow> True
        | Some tech \<Rightarrow> \<forall>m\<in>set (impliedNames tech). map_of techs m = None \<or> mapHas det m"
    using visit_fixed [OF v] by (auto simp: list_all_iff split: option.splits)
qed

lemma closed_impliesClosure: "closed techs (impliesClosure cs techs det)"
  by (rule closed_fixed [OF impliesLoop_fixed])

lemmas closure_simps =
  impliesLoop.simps [of _ _ "[]"] impliesLoop.simps [of _ _ "[_]"]
  impliesLoop.simps [of _ _ "[_, _]"]
  impliesPass.simps [of _ _ 0] impliesPass.simps [of _ _ "Suc 0"]
  impliesPass.simps [of _ _ "Suc (Suc 0)"]
  visit_def cyclicStore_def inheritedStore_def techImplies_def noTech_def impliedStep_def
  parseImplied_def lookupTech_def inheritedTech_def protoMembers_def
  sep_def bslash_def splitStr_def parseInt_def parseDigits_def digitsVal_def isDigit_def
  isSpace_def mapHas_def addDetection_def orNull_def mkDetection_def

lemma cyclic_run:
  "impliesLoop noCategories cyclicStore [(''A'', mkDetection ''A'' 90 None [])] =
     (2, [(''A'', mkDetection ''A'' 90 None []), (''B'', mkDetection ''B'' 50 None [])])"
  by (simp add: closure_simps)

lemma inherited_run:
  "impliesLoop noCategories inheritedStore [(''A'', mkDetection ''A'' 100 None [])] =
     (2, [(''A'', mkDetection ''A'' 100 None []),
          (''constructor'', mkDetection ''constructor'' 100 None [])])"
  by (simp add: closure_simps)

lemma storePlain_cyclicStore: "storePlain cyclicStore"
  by (simp add: storePlain_def cyclicStore_def techImplies_def noTech_def impliedNames_def
      parseImplied_def protoMembers_def sep_def bslash_def splitStr_def)

text \<open>
  C5. The closure is idempotent: for every initial detection map, a second run on the
  result of the first returns the same map, entry for entry, and ends after one pass,
  the pass that adds nothing.
\<close>

theorem closure_idempotent:
  "impliesClosure cs techs (impliesClosure cs techs det) = impliesClosure cs techs det \<and>
   passes cs techs (impliesClosure cs techs det) = 1"
  using impliesLoop_of_fixed [OF impliesLoop_fixed [of cs techs det]]
  by (simp add: impliesClosure_def passes_def)

theorem closure_idempotent_witness:
  "impliesClosure noCategories cyclicStore [(''A'', mkDetection ''A'' 90 None [])] =
     [(''A'', mkDetection ''A'' 90 None []), (''B'', mkDetection ''B'' 50 None [])] \<and>
   impliesClosure noCategories cyclicStore
     (impliesClosure noCategories cyclicStore [(''A'', mkDetection ''A'' 90 None [])]) =
     [(''A'', mkDetection ''A'' 90 None []), (''B'', mkDetection ''B'' 50 None [])] \<and>
   passes noCategories cyclicStore
     (impliesClosure noCategories cyclicStore [(''A'', mkDetection ''A'' 90 None [])]) = 1"
  using closure_idempotent [of noCategories cyclicStore "[(''A'', mkDetection ''A'' 90 None [])]"]
  by (simp add: impliesClosure_def cyclic_run)

text \<open>
  C4 (as amended). For every finite store, cycles in \<open>implies\<close> included, and every
  result map (a map: no name twice), the closure loop terminates: \<open>impliesLoop\<close> is a
  total function, by the termination proofs above. It makes at least one pass; the
  final map holds no name twice; and every technology of the store that a technology of
  the final map implies is in the final map. When no rule of the store implies a name
  that \<open>technologies[name]\<close> finds only as an inherited member of \<open>Object.prototype\<close>,
  the loop makes at most as many passes as the store has technologies, or one pass when
  the store is empty.
\<close>

theorem closure_terminates:
  assumes "distinct (map fst det)"
  shows "1 \<le> passes cs techs det \<and>
         (storePlain techs \<longrightarrow> passes cs techs det \<le> max 1 (length techs)) \<and>
         distinct (map fst (impliesClosure cs techs det)) \<and>
         closed techs (impliesClosure cs techs det)"
  using assms passes_ge_1 [of cs techs det] passes_bound [of techs cs det]
    distinct_impliesClosure [of det cs techs] closed_impliesClosure [of techs cs det]
  by (simp add: passes_def)

text \<open>A implies B at confidence 50 and B implies A; A is detected at 90.\<close>

theorem closure_terminates_witness:
  "distinct (map fst [(''A'', mkDetection ''A'' 90 None [])]) \<and>
   storePlain cyclicStore \<and>
   passes noCategories cyclicStore [(''A'', mkDetection ''A'' 90 None [])] = 2 \<and>
   length cyclicStore = 2 \<and>
   impliesClosure noCategories cyclicStore [(''A'', mkDetection ''A'' 90 None [])] =
     [(''A'', mkDetection ''A'' 90 None []), (''B'', mkDetection ''B'' 50 None [])] \<and>
   distinct (map fst
     (impliesClosure noCategories cyclicStore [(''A'', mkDetection ''A'' 90 None [])])) \<and>
   closed cyclicStore
     (impliesClosure noCategories cyclicStore [(''A'', mkDetection ''A'' 90 None [])])"
proof -
  have d: "distinct (map fst [(''A'', mkDetection ''A'' 90 None [])])" by simp
  have l: "length cyclicStore = 2" by (simp add: cyclicStore_def)
  from closure_terminates [OF d, of noCategories cyclicStore] d l storePlain_cyclicStore
  show ?thesis
    by (simp add: impliesClosure_def passes_def cyclic_run)
qed

text \<open>
  C4 as stated fails. On the empty store the loop makes one pass, and the store has no
  technology. On the store whose one technology A implies \<open>constructor\<close>, with A
  detected, \<open>technologies['constructor']\<close> finds the inherited member: the loop records
  \<open>constructor\<close>, which is not a name of the store, and makes two passes.
\<close>

theorem passes_bound_counterexample:
  "passes noCategories [] [] = 1 \<and> length ([] :: technologies) = 0 \<and>
   \<not> passes noCategories [] [] \<le> length ([] :: technologies) \<and>
   distinct (map fst [(''A'', mkDetection ''A'' 100 None [])]) \<and>
   \<not> storePlain inheritedStore \<and>
   length inheritedStore = 1 \<and>
   passes noCategories inheritedStore [(''A'', mkDetection ''A'' 100 None [])] = 2 \<and>
   \<not> passes noCategories inheritedStore [(''A'', mkDetection ''A'' 100 None [])]
       \<le> length inheritedStore \<and>
   map fst (impliesClosure noCategories inheritedStore [(''A'', mkDetection ''A'' 100 None [])])
     = [''A'', ''constructor''] \<and>
   map fst inheritedStore = [''A'']"
proof -
  have 1: "passes noCategories [] [] = 1"
    by (simp add: passes_def impliesLoop.simps [of _ _ "[]"] impliesPass.simps [of _ _ 0])
  have 2: "\<not> storePlain inheritedStore"
    by (simp add: storePlain_def inheritedStore_def techImplies_def noTech_def impliedNames_def
        parseImplied_def protoMembers_def sep_def bslash_def splitStr_def)
  have 3: "length inheritedStore = 1" "map fst inheritedStore = [''A'']"
    by (simp_all add: inheritedStore_def)
  from 1 2 3 show ?thesis
    by (simp add: passes_def impliesClosure_def inherited_run)
qed


end
